theory Spec2Isabelle
  imports Main "HOL-Library.Word"
begin

section \<open>Data model\<close>

text \<open>
  The renamer works on two kinds of sequences. A \<open>bytes\<close> object (a record of
  \<open>playlist.bin\<close>) is a list of 8-bit words. A Python \<open>str\<close> is a list of Unicode
  code points, each a natural number; \<open>len\<close> counts code points.
\<close>

type_synonym byte = "8 word"
type_synonym ustr = "nat list"

datatype py_error = UnicodeEncodeError | UnicodeDecodeError

definition str :: "string \<Rightarrow> ustr" where
  \<comment> \<open>an ASCII literal of the source as a list of code points\<close>
  "str s = map of_char s"

section \<open>Builtins of the language used by the renamer\<close>

definition py_isspace :: "nat \<Rightarrow> bool" where
  \<comment> \<open>the code points that \<open>str.strip()\<close> removes (\<open>str.isspace\<close>)\<close>
  "py_isspace c \<longleftrightarrow>
     (0x09 \<le> c \<and> c \<le> 0x0D) \<or> (0x1C \<le> c \<and> c \<le> 0x20) \<or> c = 0x85 \<or> c = 0xA0 \<or>
     c = 0x1680 \<or> (0x2000 \<le> c \<and> c \<le> 0x200A) \<or> c = 0x2028 \<or> c = 0x2029 \<or>
     c = 0x202F \<or> c = 0x205F \<or> c = 0x3000"

definition strip_chars :: "(nat \<Rightarrow> bool) \<Rightarrow> ustr \<Rightarrow> ustr" where
  \<comment> \<open>\<open>s.strip(chars)\<close>: drop the leading and the trailing characters in the set\<close>
  "strip_chars P s = rev (dropWhile P (rev (dropWhile P s)))"

fun contains_double :: "nat \<Rightarrow> ustr \<Rightarrow> bool" where
  \<comment> \<open>\<open>(c + c) in s\<close>\<close>
  "contains_double c (x # y # r) = ((x = c \<and> y = c) \<or> contains_double c (y # r))"
| "contains_double c r = False"

fun replace_double :: "nat \<Rightarrow> ustr \<Rightarrow> ustr" where
  \<comment> \<open>\<open>s.replace(c + c, c)\<close>: leftmost occurrences first, without overlap\<close>
  "replace_double c (x # y # r) =
     (if x = c \<and> y = c then c # replace_double c r else x # replace_double c (y # r))"
| "replace_double c r = r"

definition is_surrogate :: "nat \<Rightarrow> bool" where
  "is_surrogate c \<longleftrightarrow> 0xD800 \<le> c \<and> c \<le> 0xDFFF"

definition utf8_width :: "nat \<Rightarrow> nat" where
  \<comment> \<open>the number of bytes of one code point in UTF-8\<close>
  "utf8_width c = (if c < 0x80 then 1 else if c < 0x800 then 2 else if c < 0x10000 then 3 else 4)"

definition encode_utf8_len :: "ustr \<Rightarrow> py_error + nat" where
  \<comment> \<open>\<open>len(s.encode('utf-8'))\<close>; a lone surrogate cannot be encoded\<close>
  "encode_utf8_len s =
     (if list_ex is_surrogate s then Inl UnicodeEncodeError
      else Inr (sum_list (map utf8_width s)))"

section \<open>\<open>merlin_renamer.py\<close>: \<open>sanitize_filename\<close>\<close>

definition invalid_chars :: "nat \<Rightarrow> bool" where
  \<comment> \<open>the character class \<open>[\\/:*?"<>|\x00-\x1f]\<close>\<close>
  "invalid_chars c \<longleftrightarrow>
     c = 0x5C \<or> c = 0x2F \<or> c = 0x3A \<or> c = 0x2A \<or> c = 0x3F \<or> c = 0x22 \<or>
     c = 0x3C \<or> c = 0x3E \<or> c = 0x7C \<or> c \<le> 0x1F"

definition re_sub_invalid :: "ustr \<Rightarrow> ustr" where
  \<comment> \<open>\<open>re.sub(invalid_chars, '_', title)\<close>\<close>
  "re_sub_invalid title = map (\<lambda>c. if invalid_chars c then 0x5F else c) title"

function collapse :: "nat \<Rightarrow> ustr \<Rightarrow> ustr" where
  \<comment> \<open>\<open>while (c + c) in safe: safe = safe.replace(c + c, c)\<close>\<close>
  "collapse c safe = (if contains_double c safe then collapse c (replace_double c safe) else safe)"
  by pat_completeness auto
termination
proof (relation "measure (\<lambda>(c, safe). length safe)")
  fix c :: nat and safe :: ustr
  have "(contains_double c s \<longrightarrow> length (replace_double c s) < length s) \<and>
        length (replace_double c s) \<le> length s" for s
    by (induction c s rule: replace_double.induct) (auto simp: less_Suc_eq_le)
  then show "contains_double c safe \<Longrightarrow>
      ((c, replace_double c safe), (c, safe)) \<in> measure (\<lambda>(c, safe). length safe)"
    by simp
qed simp

declare collapse.simps [simp del]

definition trim_chars :: "nat \<Rightarrow> bool" where
  \<comment> \<open>the argument of \<open>strip("._-")\<close>\<close>
  "trim_chars c \<longleftrightarrow> c = 0x2E \<or> c = 0x5F \<or> c = 0x2D"

function shorten :: "nat \<Rightarrow> ustr \<Rightarrow> py_error + ustr" where
  \<comment> \<open>\<open>while len(safe.encode('utf-8')) > max_length and safe: safe = safe[:-1]\<close>\<close>
  "shorten max_length safe =
     (case encode_utf8_len safe of
        Inl e \<Rightarrow> Inl e
      | Inr n \<Rightarrow> if n > max_length \<and> safe \<noteq> [] then shorten max_length (butlast safe)
                else Inr safe)"
  by pat_completeness auto
termination
  by (relation "measure (\<lambda>(m, safe). length safe)") auto

declare shorten.simps [simp del]

definition unnamed :: ustr where
  "unnamed = str ''unnamed''"

definition sanitize_filename :: "ustr \<Rightarrow> nat \<Rightarrow> py_error + ustr" where
  "sanitize_filename title max_length =
     (if title = [] then Inr unnamed
      else
        let safe = re_sub_invalid title;
            safe = collapse 0x20 safe;
            safe = collapse 0x5F safe;
            safe = strip_chars trim_chars (strip_chars py_isspace safe)
        in case shorten max_length safe of
             Inl e \<Rightarrow> Inl e
           | Inr safe \<Rightarrow> Inr (if safe = [] then unnamed else safe))"

section \<open>\<open>rename_from_id3.py\<close>: the older \<open>sanitize_filename\<close>\<close>

text \<open>
  \<open>str.isalpha\<close> and \<open>str.isalnum\<close> consult the Unicode character database. The
  code points below \<open>0x100\<close> are written out here; the rest of the table is the
  parameter \<open>db\<close> of the functions that need it.
\<close>

definition latin1_isalpha :: "nat \<Rightarrow> bool" where
  "latin1_isalpha c \<longleftrightarrow>
     (0x41 \<le> c \<and> c \<le> 0x5A) \<or> (0x61 \<le> c \<and> c \<le> 0x7A) \<or> c = 0xAA \<or> c = 0xB5 \<or>
     c = 0xBA \<or> (0xC0 \<le> c \<and> c \<le> 0xD6) \<or> (0xD8 \<le> c \<and> c \<le> 0xF6) \<or>
     (0xF8 \<le> c \<and> c \<le> 0xFF)"

definition latin1_isalnum :: "nat \<Rightarrow> bool" where
  "latin1_isalnum c \<longleftrightarrow>
     latin1_isalpha c \<or> (0x30 \<le> c \<and> c \<le> 0x39) \<or> c = 0xB2 \<or> c = 0xB3 \<or> c = 0xB9 \<or>
     (0xBC \<le> c \<and> c \<le> 0xBE)"

definition py_isalpha :: "(nat \<Rightarrow> bool) \<Rightarrow> nat \<Rightarrow> bool" where
  "py_isalpha db c = (if c < 0x100 then latin1_isalpha c else db c)"

definition py_isalnum :: "(nat \<Rightarrow> bool) \<Rightarrow> nat \<Rightarrow> bool" where
  "py_isalnum db c = (if c < 0x100 then latin1_isalnum c else db c)"

definition latin1_only :: "nat \<Rightarrow> bool" where
  \<comment> \<open>a table with no entry above \<open>0xFF\<close>, for inputs that stay below \<open>0x100\<close>\<close>
  "latin1_only c = False"

definition legacy_keep :: "(nat \<Rightarrow> bool) \<Rightarrow> nat \<Rightarrow> bool" where
  \<comment> \<open>\<open>c.isalnum() or c in " _-."\<close>\<close>
  "legacy_keep db c \<longleftrightarrow> py_isalnum db c \<or> c = 0x20 \<or> c = 0x5F \<or> c = 0x2D \<or> c = 0x2E"

definition legacy_sanitize_filename :: "(nat \<Rightarrow> bool) \<Rightarrow> ustr \<Rightarrow> nat \<Rightarrow> py_error + ustr" where
  "legacy_sanitize_filename db title max_length =
     (if title = [] then Inr unnamed
      else
        let safe = map (\<lambda>c. if legacy_keep db c then c else 0x5F) title;
            safe = collapse 0x20 safe;
            safe = collapse 0x5F safe;
            safe = strip_chars trim_chars (strip_chars py_isspace safe)
        in case shorten max_length safe of
             Inl e \<Rightarrow> Inl e
           | Inr safe \<Rightarrow> Inr (if safe = [] then unnamed else safe))"

section \<open>\<open>merlin_renamer.py\<close>: identifiers\<close>

definition is_hex :: "nat \<Rightarrow> bool" where
  \<comment> \<open>the character class \<open>[0-9a-fA-F]\<close>\<close>
  "is_hex c \<longleftrightarrow> (0x30 \<le> c \<and> c \<le> 0x39) \<or> (0x61 \<le> c \<and> c \<le> 0x66) \<or> (0x41 \<le> c \<and> c \<le> 0x46)"

datatype atom = Hex | Lit nat

fun match_atoms :: "atom list \<Rightarrow> nat list \<Rightarrow> bool" where
  \<comment> \<open>a pattern of one-character atoms matches at the start of the text\<close>
  "match_atoms [] s = True"
| "match_atoms (a # as) [] = False"
| "match_atoms (Hex # as) (c # s) = (is_hex c \<and> match_atoms as s)"
| "match_atoms (Lit l # as) (c # s) = (c = l \<and> match_atoms as s)"

definition hyphen :: atom where
  "hyphen = Lit 0x2D"

definition UUID_PATTERN :: "atom list" where
  \<comment> \<open>\<open>[0-9a-fA-F]{8}-[0-9a-fA-F]{4}-[0-9a-fA-F]{4}-[0-9a-fA-F]{4}-[0-9a-fA-F]{12}\<close>\<close>
  "UUID_PATTERN = replicate 8 Hex @ [hyphen] @ replicate 4 Hex @ [hyphen] @ replicate 4 Hex @
     [hyphen] @ replicate 4 Hex @ [hyphen] @ replicate 12 Hex"

definition UUID_LIKE_PATTERN :: "atom list" where
  \<comment> \<open>\<open>[0-9a-fA-F]{8}-[0-9a-fA-F]{4}\<close>, the pattern of \<open>is_uuid_like\<close>\<close>
  "UUID_LIKE_PATTERN = replicate 8 Hex @ [hyphen] @ replicate 4 Hex"

fun re_search :: "atom list \<Rightarrow> nat list \<Rightarrow> bool" where
  \<comment> \<open>\<open>re.search\<close>: the pattern matches at some position\<close>
  "re_search p [] = match_atoms p []"
| "re_search p (c # s) = (match_atoms p (c # s) \<or> re_search p s)"

fun finditer :: "atom list \<Rightarrow> nat \<Rightarrow> nat list \<Rightarrow> (nat \<times> nat list) list" where
  \<comment> \<open>\<open>re.finditer\<close> for a pattern of fixed non-zero length: the matches from left to
    right without overlap, each with its start offset and its text\<close>
  "finditer p pos [] = []"
| "finditer p pos (c # s) =
     (if match_atoms p (c # s)
      then (pos, take (length p) (c # s)) # finditer p (pos + length p) (drop (length p - 1) s)
      else finditer p (pos + 1) s)"

definition UUID_MARKER :: "byte list" where
  \<comment> \<open>\<open>b'La\x94i$'\<close>\<close>
  "UUID_MARKER = [0x4C, 0x61, 0x94, 0x69, 0x24]"

definition ENTRY_SIZE :: nat where
  "ENTRY_SIZE = 256"

record uuid_match =
  uuid :: ustr
  offset :: nat
  has_marker :: bool

fun marker_before :: "byte list \<Rightarrow> nat list \<Rightarrow> bool" where
  \<comment> \<open>the loop over \<open>marker_offset\<close>, leaving at the first hit\<close>
  "marker_before entry [] = False"
| "marker_before entry (marker_offset # rest) =
     (if take (length UUID_MARKER) (drop marker_offset entry) = UUID_MARKER then True
      else marker_before entry rest)"

definition find_uuids_in_entry :: "byte list \<Rightarrow> uuid_match list" where
  "find_uuids_in_entry entry =
     map (\<lambda>(start, grp).
            \<lparr>uuid = grp, offset = start, has_marker = marker_before entry [start - 5 ..< start]\<rparr>)
         (finditer UUID_PATTERN 0 (map unat entry))"

definition is_uuid_like :: "ustr \<Rightarrow> bool" where
  \<comment> \<open>\<open>hex_chars / len(text) > 0.7\<close> is a comparison of floats in the source; for a text
    shorter than \<open>2 ^ 49\<close> characters it holds exactly when \<open>10 * hex_chars > 7 * len(text)\<close>\<close>
  "is_uuid_like text =
     (if text = [] then False
      else if re_search UUID_LIKE_PATTERN text then True
      else
        let hex_chars = length (filter (\<lambda>c. is_hex c \<or> c = 0x2D) text)
        in if length text > 10 \<and> 10 * hex_chars > 7 * length text then True else False)"

section \<open>\<open>merlin_renamer.py\<close>: title text of a record\<close>

definition continuation :: "nat \<Rightarrow> bool" where
  "continuation b \<longleftrightarrow> 0x80 \<le> b \<and> b \<le> 0xBF"

fun utf8_code_points :: "nat list \<Rightarrow> ustr option" where
  \<comment> \<open>the strict UTF-8 decoder of the language: no overlong form, no surrogate, nothing
    above \<open>U+10FFFF\<close>; \<open>None\<close> where it raises\<close>
  "utf8_code_points [] = Some []"
| "utf8_code_points (b # bs) =
     (if b < 0x80 then map_option ((#) b) (utf8_code_points bs)
      else if 0xC2 \<le> b \<and> b \<le> 0xDF then
        (case bs of
           b1 # r \<Rightarrow>
             if continuation b1
             then map_option ((#) ((b - 0xC0) * 64 + (b1 - 0x80))) (utf8_code_points r)
             else None
         | _ \<Rightarrow> None)
      else if 0xE0 \<le> b \<and> b \<le> 0xEF then
        (case bs of
           b1 # b2 # r \<Rightarrow>
             if continuation b1 \<and> continuation b2 \<and> (b = 0xE0 \<longrightarrow> 0xA0 \<le> b1) \<and>
                (b = 0xED \<longrightarrow> b1 \<le> 0x9F)
             then map_option ((#) ((b - 0xE0) * 4096 + (b1 - 0x80) * 64 + (b2 - 0x80)))
                    (utf8_code_points r)
             else None
         | _ \<Rightarrow> None)
      else if 0xF0 \<le> b \<and> b \<le> 0xF4 then
        (case bs of
           b1 # b2 # b3 # r \<Rightarrow>
             if continuation b1 \<and> continuation b2 \<and> continuation b3 \<and>
                (b = 0xF0 \<longrightarrow> 0x90 \<le> b1) \<and> (b = 0xF4 \<longrightarrow> b1 \<le> 0x8F)
             then map_option
                    ((#) ((b - 0xF0) * 262144 + (b1 - 0x80) * 4096 + (b2 - 0x80) * 64 + (b3 - 0x80)))
                    (utf8_code_points r)
             else None
         | _ \<Rightarrow> None)
      else None)"

definition decode_utf8 :: "byte list \<Rightarrow> py_error + ustr" where
  \<comment> \<open>\<open>bs.decode('utf-8')\<close>\<close>
  "decode_utf8 bs =
     (case utf8_code_points (map unat bs) of None \<Rightarrow> Inl UnicodeDecodeError | Some t \<Rightarrow> Inr t)"

fun decode_bytewise :: "(nat \<Rightarrow> nat option) \<Rightarrow> byte list \<Rightarrow> py_error + ustr" where
  \<comment> \<open>a single-byte codec: every byte goes through the table of the encoding, and a byte
    value without an entry raises\<close>
  "decode_bytewise table [] = Inr []"
| "decode_bytewise table (b # bs) =
     (case table (unat b) of
        None \<Rightarrow> Inl UnicodeDecodeError
      | Some c \<Rightarrow>
          (case decode_bytewise table bs of Inl e \<Rightarrow> Inl e | Inr t \<Rightarrow> Inr (c # t)))"

definition latin1_table :: "nat \<Rightarrow> nat option" where
  \<comment> \<open>Latin-1 has an entry for each of the values 0 to 255: the code point of that value\<close>
  "latin1_table v = (if v < 256 then Some v else None)"

definition decode_latin1 :: "byte list \<Rightarrow> py_error + ustr" where
  \<comment> \<open>\<open>bs.decode('latin-1')\<close>\<close>
  "decode_latin1 bs = decode_bytewise latin1_table bs"

record text_seq =
  seq_offset :: nat
  seq_text :: ustr

definition alpha_count :: "(nat \<Rightarrow> bool) \<Rightarrow> ustr \<Rightarrow> nat" where
  \<comment> \<open>\<open>sum(1 for c in text if c.isalpha())\<close>\<close>
  "alpha_count db t = length (filter (py_isalpha db) t)"

definition keep_text :: "(nat \<Rightarrow> bool) \<Rightarrow> nat \<Rightarrow> ustr \<Rightarrow> text_seq list" where
  \<comment> \<open>the three tests on a decoded and stripped text; the list holds what is appended
    to \<open>text_sequences\<close>\<close>
  "keep_text db start t =
     (if length t \<ge> 8 then
        if \<not> is_uuid_like t then
          if alpha_count db t \<ge> 3 then [\<lparr>seq_offset = start, seq_text = t\<rparr>] else []
        else []
      else [])"

definition run_sequences :: "(nat \<Rightarrow> bool) \<Rightarrow> nat \<Rightarrow> byte list \<Rightarrow> text_seq list" where
  \<comment> \<open>the \<open>try\<close> statement applied to the run \<open>entry[start:i]\<close>\<close>
  "run_sequences db start run =
     (case decode_utf8 run of
        Inr t \<Rightarrow> keep_text db start (strip_chars py_isspace t)
      | Inl e \<Rightarrow>
          (case decode_latin1 run of
             Inr t \<Rightarrow> keep_text db start (strip_chars py_isspace t)
           | Inl e' \<Rightarrow> []))"

definition printable :: "byte \<Rightarrow> bool" where
  \<comment> \<open>\<open>entry[i] >= 32\<close>\<close>
  "printable b \<longleftrightarrow> 32 \<le> b"

function text_sequences :: "(nat \<Rightarrow> bool) \<Rightarrow> nat \<Rightarrow> byte list \<Rightarrow> text_seq list" where
  \<comment> \<open>the outer \<open>while\<close> loop at index \<open>i\<close>, given the bytes from \<open>i\<close> on\<close>
  "text_sequences db i [] = []"
| "text_sequences db i (b # bs) =
     (if printable b
      then run_sequences db i (b # takeWhile printable bs) @
           text_sequences db (i + 1 + length (takeWhile printable bs)) (dropWhile printable bs)
      else text_sequences db (i + 1) bs)"
  by pat_completeness auto
termination
  by (relation "measure (\<lambda>(db, i, bs). length bs)")
     (auto simp: less_Suc_eq_le length_dropWhile_le)

definition sort_reverse :: "('a \<Rightarrow> nat) \<Rightarrow> 'a list \<Rightarrow> 'a list" where
  \<comment> \<open>\<open>list.sort(key=..., reverse=True)\<close>: descending and stable\<close>
  "sort_reverse k xs = rev (sort_key k (rev xs))"

definition extract_title_from_entry :: "(nat \<Rightarrow> bool) \<Rightarrow> byte list \<Rightarrow> uuid_match list \<Rightarrow> ustr" where
  "extract_title_from_entry db entry uuid_offsets =
     (case sort_reverse (\<lambda>x. length (seq_text x)) (text_sequences db 0 entry) of
        [] \<Rightarrow> []
      | first # _ \<Rightarrow> seq_text first)"

section \<open>\<open>merlin_renamer.py\<close>: \<open>read_merlin_playlist\<close>\<close>

record item =
  index :: nat
  item_uuid :: ustr
  pl_title :: ustr
  all_uuids :: "ustr list"

definition read_entry :: "byte list \<Rightarrow> nat \<Rightarrow> byte list" where
  \<comment> \<open>\<open>f.seek(i * ENTRY_SIZE); f.read(ENTRY_SIZE)\<close> on a file with these contents\<close>
  "read_entry file i = take ENTRY_SIZE (drop (i * ENTRY_SIZE) file)"

definition entry_item :: "(nat \<Rightarrow> bool) \<Rightarrow> nat \<Rightarrow> byte list \<Rightarrow> item option" where
  \<comment> \<open>the body of the loop after the length test: the item appended for record \<open>i\<close>, if any\<close>
  "entry_item db i entry =
     (let uuids = find_uuids_in_entry entry in
      if length uuids \<ge> 1 then
        let uuid_with_marker = filter has_marker uuids;
            file_uuid = (case uuid_with_marker of u # _ \<Rightarrow> uuid u | [] \<Rightarrow> uuid (hd uuids));
            title = extract_title_from_entry db entry uuids
        in Some \<lparr>index = i, item_uuid = file_uuid, pl_title = title, all_uuids = map uuid uuids\<rparr>
      else None)"

fun read_loop :: "(nat \<Rightarrow> bool) \<Rightarrow> byte list \<Rightarrow> nat list \<Rightarrow> item list \<Rightarrow> item list" where
  \<comment> \<open>\<open>for i in range(num_entries)\<close> with its \<open>break\<close>\<close>
  "read_loop db file [] items = items"
| "read_loop db file (i # rest) items =
     (let entry = read_entry file i in
      if length entry < ENTRY_SIZE then items
      else case entry_item db i entry of
             Some it \<Rightarrow> read_loop db file rest (items @ [it])
           | None \<Rightarrow> read_loop db file rest items)"

definition read_merlin_playlist :: "(nat \<Rightarrow> bool) \<Rightarrow> byte list \<Rightarrow> item list" where
  "read_merlin_playlist db file =
     (let file_size = length file; num_entries = file_size div ENTRY_SIZE
      in read_loop db file [0 ..< num_entries] [])"

section \<open>\<open>merlin_renamer.py\<close>: the title of an item\<close>

type_synonym id3_tags = "string \<rightharpoonup> ustr list"

fun first_tag :: "id3_tags \<Rightarrow> string list \<Rightarrow> ustr option" where
  \<comment> \<open>the loop over the tag names inside \<open>try\<close>; \<open>text[0]\<close> of an empty list raises, and
    the bare \<open>except\<close> then gives \<open>None\<close>\<close>
  "first_tag tags [] = None"
| "first_tag tags (tag # rest) =
     (case tags tag of
        None \<Rightarrow> first_tag tags rest
      | Some [] \<Rightarrow> None
      | Some (t # _) \<Rightarrow> if t \<noteq> [] \<and> length t \<ge> 3 then Some t else first_tag tags rest)"

definition get_id3_title :: "bool \<Rightarrow> id3_tags option \<Rightarrow> ustr option" where
  \<comment> \<open>the argument is what \<open>ID3(filepath)\<close> gives: \<open>None\<close> where it raises\<close>
  "get_id3_title HAS_MUTAGEN file_tags =
     (if \<not> HAS_MUTAGEN then None
      else case file_tags of
             None \<Rightarrow> None
           | Some tags \<Rightarrow> first_tag tags [''TIT2'', ''TIT1'', ''TALB''])"

datatype title_source = ID3 | PLAYLIST | UUID

definition choose_title :: "ustr option \<Rightarrow> ustr option \<Rightarrow> ustr \<Rightarrow> ustr \<times> title_source" where
  \<comment> \<open>the \<open>if\<close>/\<open>elif\<close>/\<open>else\<close> of \<open>main\<close>; \<open>None\<close> and the empty string are both false\<close>
  "choose_title id3_title playlist_title file_uuid =
     (if id3_title \<noteq> None \<and> id3_title \<noteq> Some [] then (the id3_title, ID3)
      else if playlist_title \<noteq> None \<and> playlist_title \<noteq> Some [] \<and>
              \<not> is_uuid_like (the playlist_title)
           then (the playlist_title, PLAYLIST)
      else (file_uuid, UUID))"

definition embedded_lookup :: "bool \<Rightarrow> bool \<Rightarrow> id3_tags option \<Rightarrow> ustr option" where
  \<comment> \<open>\<open>get_id3_title(str(src_mp3)) if mp3_exists and HAS_MUTAGEN else None\<close>\<close>
  "embedded_lookup HAS_MUTAGEN mp3_exists file_tags =
     (if mp3_exists \<and> HAS_MUTAGEN then get_id3_title HAS_MUTAGEN file_tags else None)"

definition item_title ::
  "bool \<Rightarrow> bool \<Rightarrow> bool \<Rightarrow> id3_tags option \<Rightarrow> item \<Rightarrow> ustr \<times> title_source" where
  \<comment> \<open>\<open>final_title\<close> and \<open>title_source\<close> of one item in the loop of \<open>main\<close>\<close>
  "item_title HAS_MUTAGEN id3_only mp3_exists file_tags it =
     (let file_uuid = item_uuid it;
          id3_title = embedded_lookup HAS_MUTAGEN mp3_exists file_tags;
          playlist_title = (if \<not> id3_only then Some (pl_title it) else None)
      in choose_title id3_title playlist_title file_uuid)"

section \<open>Notions used to state the properties\<close>

function printable_runs :: "nat \<Rightarrow> byte list \<Rightarrow> (nat \<times> byte list) list" where
  \<comment> \<open>the runs \<open>entry[start:i]\<close> that the loop of \<open>extract_title_from_entry\<close> visits, each
    with its start offset\<close>
  "printable_runs i [] = []"
| "printable_runs i (b # bs) =
     (if printable b
      then (i, b # takeWhile printable bs) #
           printable_runs (i + 1 + length (takeWhile printable bs)) (dropWhile printable bs)
      else printable_runs (i + 1) bs)"
  by pat_completeness auto
termination
  by (relation "measure (\<lambda>(i, bs). length bs)")
     (auto simp: less_Suc_eq_le length_dropWhile_le)

definition decoded :: "byte list \<Rightarrow> ustr" where
  \<comment> \<open>the text of a run: UTF-8 where that decodes, Latin-1 otherwise\<close>
  "decoded run = (case decode_utf8 run of Inr t \<Rightarrow> t | Inl e \<Rightarrow> map unat run)"

definition decoded_text :: "byte list \<Rightarrow> ustr" where
  \<comment> \<open>the same with leading and trailing whitespace removed\<close>
  "decoded_text run = strip_chars py_isspace (decoded run)"

definition surviving_candidates :: "(nat \<Rightarrow> bool) \<Rightarrow> byte list \<Rightarrow> text_seq list" where
  \<comment> \<open>the stripped texts of the runs that pass the three tests, in record order\<close>
  "surviving_candidates db entry =
     concat (map (\<lambda>(start, run). keep_text db start (decoded_text run)) (printable_runs 0 entry))"

definition claimed_candidates :: "(nat \<Rightarrow> bool) \<Rightarrow> byte list \<Rightarrow> text_seq list" where
  \<comment> \<open>the candidates in the words of the specification: the decoded run itself, tested
    as it is\<close>
  "claimed_candidates db entry =
     concat (map (\<lambda>(start, run). keep_text db start (decoded run)) (printable_runs 0 entry))"

definition claimed_title :: "(nat \<Rightarrow> bool) \<Rightarrow> byte list \<Rightarrow> ustr" where
  \<comment> \<open>the first of the longest among them, or the empty string\<close>
  "claimed_title db entry =
     (case sort_reverse (\<lambda>x. length (seq_text x)) (claimed_candidates db entry) of
        [] \<Rightarrow> []
      | first # _ \<Rightarrow> seq_text first)"

definition claimed_identifier_like :: "ustr \<Rightarrow> bool" where
  \<comment> \<open>identifier-like in the words of the specification: eight hex digits then a hyphen
    somewhere, or more than 10 characters of which more than 70% are hex digits or hyphens\<close>
  "claimed_identifier_like t \<longleftrightarrow>
     re_search (replicate 8 Hex @ [hyphen]) t \<or>
     (10 < length t \<and> 7 * length t < 10 * length (filter (\<lambda>c. is_hex c \<or> c = 0x2D) t))"

definition claimed_item_title :: "ustr option \<Rightarrow> bool \<Rightarrow> item \<Rightarrow> ustr \<times> title_source" where
  \<comment> \<open>the priority rule in the words of the specification, with its own notion of
    identifier-like\<close>
  "claimed_item_title lookup id3_only it =
     (case lookup of
        Some t \<Rightarrow> (t, ID3)
      | None \<Rightarrow>
          if \<not> id3_only \<and> pl_title it \<noteq> [] \<and> \<not> claimed_identifier_like (pl_title it)
          then (pl_title it, PLAYLIST)
          else (item_uuid it, UUID))"

definition edge_char :: "nat \<Rightarrow> bool" where
  \<comment> \<open>a character that one of the two \<open>strip\<close> calls removes\<close>
  "edge_char c \<longleftrightarrow> py_isspace c \<or> trim_chars c"

definition clean_ends :: "ustr \<Rightarrow> bool" where
  "clean_ends y = (case y of [] \<Rightarrow> True | c # _ \<Rightarrow> \<not> edge_char c \<and> \<not> edge_char (last y))"


section \<open>Concrete inputs\<close>

definition cafe_d_ete :: ustr where
  \<comment> \<open>the title \<open>Caf\<close>, U+00E9, \<open> d\<close>, apostrophe, U+00E9, \<open>t\<close>, U+00E9\<close>
  "cafe_d_ete = str ''Caf'' @ [0xE9] @ str '' d'' @ [0x27, 0xE9] @ str ''t'' @ [0xE9]"

definition cafe_d_ete_legacy :: ustr where
  \<comment> \<open>the same with the apostrophe replaced by an underscore\<close>
  "cafe_d_ete_legacy = str ''Caf'' @ [0xE9] @ str '' d_'' @ [0xE9] @ str ''t'' @ [0xE9]"

definition bytes :: "string \<Rightarrow> byte list" where
  \<comment> \<open>an ASCII literal as bytes\<close>
  "bytes s = map of_char s"

definition uuid1 :: string where
  "uuid1 = ''1c74e8f3-123e-4497-964b-6720f1817071''"

definition uuid2 :: string where
  "uuid2 = ''0A1B2C3D-4e5f-6071-8293-a4b5c6d7e8f9''"

definition record0 :: "byte list" where
  \<comment> \<open>marker, identifier, a zero byte, a title, zero padding\<close>
  "record0 = UUID_MARKER @ bytes uuid1 @ [0] @ bytes ''My Favorite Song'' @ replicate 198 0"

definition playlist_512 :: "byte list" where
  \<comment> \<open>two records, the second without an identifier\<close>
  "playlist_512 = record0 @ replicate 256 0"

definition record_two_uuids :: "byte list" where
  \<comment> \<open>an identifier without marker at offset 0, one with marker at offset 42\<close>
  "record_two_uuids = bytes uuid2 @ [0] @ UUID_MARKER @ bytes uuid1 @ replicate 178 0"

definition record_tie :: "byte list" where
  \<comment> \<open>two titles of the same length\<close>
  "record_tie = UUID_MARKER @ bytes uuid1 @ [0] @ bytes ''Title One'' @ [0] @ bytes ''Title Two'' @
     replicate 195 0"

definition record_padded :: "byte list" where
  \<comment> \<open>a title of 15 characters, then a title of 9 characters inside 12 spaces\<close>
  "record_padded = UUID_MARKER @ bytes uuid1 @ [0] @ bytes ''Short Title One'' @ [0] @
     bytes ''      Tiny Song      '' @ replicate 177 0"

definition record_hex_prefix :: "byte list" where
  \<comment> \<open>a title that begins with eight hex digits and a hyphen\<close>
  "record_hex_prefix = UUID_MARKER @ bytes uuid1 @ [0] @ bytes ''deadbeef-song title'' @
     replicate 195 0"

definition latin1_run :: "byte list" where
  \<comment> \<open>\<open>Caf\<close>, byte \<open>0xE9\<close>, \<open> du Monde\<close>: Latin-1 text that is not UTF-8\<close>
  "latin1_run = bytes ''Caf'' @ [0xE9] @ bytes '' du Monde''"

definition record_latin1 :: "byte list" where
  \<comment> \<open>a record whose title is that Latin-1 text\<close>
  "record_latin1 = UUID_MARKER @ bytes uuid1 @ [0] @ latin1_run @ replicate 201 0"

definition record_spaced :: "byte list" where
  \<comment> \<open>a title of 7 letters inside 6 spaces\<close>
  "record_spaced = UUID_MARKER @ bytes uuid1 @ [0] @ bytes ''   abcdefg   '' @ replicate 201 0"

definition hex_item :: item where
  \<comment> \<open>the item parsed from \<open>record_hex_prefix\<close>\<close>
  "hex_item = \<lparr>index = 0, item_uuid = str uuid1, pl_title = str ''deadbeef-song title'',
                all_uuids = [str uuid1]\<rparr>"

definition song_a :: item where
  "song_a = \<lparr>index = 0, item_uuid = str uuid1, pl_title = str ''Song A'', all_uuids = [str uuid1]\<rparr>"

section \<open>Properties of \<open>sanitize_filename\<close>\<close>

lemma shorten_code:
  "shorten max_length safe =
     (if list_ex is_surrogate safe then Inl UnicodeEncodeError
      else if sum_list (map utf8_width safe) > max_length \<and> safe \<noteq> []
           then shorten max_length (butlast safe) else Inr safe)"
  by (subst shorten.simps) (simp add: encode_utf8_len_def)

lemma re_sub_invalid_clean: "c \<in> set (re_sub_invalid t) \<Longrightarrow> \<not> invalid_chars c"
  by (auto simp: re_sub_invalid_def invalid_chars_def)

lemma re_sub_invalid_id: "\<forall>c\<in>set t. \<not> invalid_chars c \<Longrightarrow> re_sub_invalid t = t"
  by (simp add: re_sub_invalid_def map_idI)

lemma set_replace_double: "set (replace_double c s) \<subseteq> set s"
  by (induction c s rule: replace_double.induct) auto

lemma set_collapse: "set (collapse c s) \<subseteq> set s"
proof (induction c s rule: collapse.induct)
  case (1 c safe)
  show ?case
  proof (cases "contains_double c safe")
    case True
    with 1 have "set (collapse c (replace_double c safe)) \<subseteq> set (replace_double c safe)"
      by simp
    with True set_replace_double [of c safe] show ?thesis
      by (subst collapse.simps) auto
  next
    case False
    then show ?thesis by (subst collapse.simps) simp
  qed
qed

lemma set_strip_chars: "set (strip_chars P s) \<subseteq> set s"
  unfolding strip_chars_def by (auto dest!: set_dropWhileD)

lemma shorten_result:
  "shorten m s = Inr y \<Longrightarrow>
     (\<exists>n. y = take n s) \<and> \<not> list_ex is_surrogate y \<and>
     (y = [] \<or> sum_list (map utf8_width y) \<le> m)"
proof (induction m s rule: shorten.induct)
  case (1 m safe)
  show ?case
  proof (cases "sum_list (map utf8_width safe) > m \<and> safe \<noteq> []")
    case True
    with "1.prems" have ns: "\<not> list_ex is_surrogate safe"
      and eq: "shorten m (butlast safe) = Inr y"
      by (auto simp: shorten_code [of m safe] split: if_splits)
    from ns have "encode_utf8_len safe = Inr (sum_list (map utf8_width safe))"
      by (simp add: encode_utf8_len_def)
    from "1.IH" [OF this _ eq] True
    have "(\<exists>n. y = take n (butlast safe)) \<and> \<not> list_ex is_surrogate y \<and>
          (y = [] \<or> sum_list (map utf8_width y) \<le> m)"
      by simp
    then obtain n where "y = take n (butlast safe)"
      and r: "\<not> list_ex is_surrogate y" "y = [] \<or> sum_list (map utf8_width y) \<le> m"
      by blast
    then have "y = take (min n (length safe - 1)) safe" by (simp add: butlast_conv_take)
    with r show ?thesis by blast
  next
    case False
    with "1.prems" have "y = safe" "\<not> list_ex is_surrogate safe"
      by (auto simp: shorten_code [of m safe] split: if_splits)
    with False show ?thesis by (auto intro: exI [of _ "length safe"])
  qed
qed

lemma shorten_total:
  "\<not> list_ex is_surrogate s \<Longrightarrow> \<exists>y. shorten m s = Inr y"
proof (induction m s rule: shorten.induct)
  case (1 m safe)
  show ?case
  proof (cases "sum_list (map utf8_width safe) > m \<and> safe \<noteq> []")
    case True
    from "1.prems" have e: "encode_utf8_len safe = Inr (sum_list (map utf8_width safe))"
      by (simp add: encode_utf8_len_def)
    have "\<not> list_ex is_surrogate (butlast safe)"
      using "1.prems" by (auto simp: list_ex_iff dest: in_set_butlastD)
    from "1.IH" [OF e _ this] True obtain y where "shorten m (butlast safe) = Inr y" by auto
    with True "1.prems" show ?thesis by (subst shorten_code) simp
  next
    case False
    with "1.prems" show ?thesis by (subst shorten_code) auto
  qed
qed

lemma shorten_fits:
  "\<not> list_ex is_surrogate s \<Longrightarrow> sum_list (map utf8_width s) \<le> m \<Longrightarrow> shorten m s = Inr s"
  by (subst shorten_code) auto

lemma unnamed_clean: "c \<in> set unnamed \<Longrightarrow> \<not> invalid_chars c"
  by (auto simp: unnamed_def str_def invalid_chars_def)

lemma contains_double_Cons:
  "contains_double c (x # s) \<longleftrightarrow> (s \<noteq> [] \<and> x = c \<and> hd s = c) \<or> contains_double c s"
  by (cases s) auto

lemma contains_double_iff:
  "contains_double c s \<longleftrightarrow> (\<exists>xs ys. s = xs @ [c, c] @ ys)"
proof (induction c s rule: contains_double.induct)
  case (1 c x y r)
  show ?case
  proof
    assume "contains_double c (x # y # r)"
    then consider "x = c \<and> y = c" | "contains_double c (y # r)" by auto
    then show "\<exists>xs ys. x # y # r = xs @ [c, c] @ ys"
    proof cases
      case 1
      then have "x # y # r = [] @ [c, c] @ r" by simp
      then show ?thesis by blast
    next
      case 2
      with "1.IH" obtain xs ys where "y # r = xs @ [c, c] @ ys" by auto
      then have "x # y # r = (x # xs) @ [c, c] @ ys" by simp
      then show ?thesis by blast
    qed
  next
    assume "\<exists>xs ys. x # y # r = xs @ [c, c] @ ys"
    then obtain xs ys where e: "x # y # r = xs @ [c, c] @ ys" by blast
    show "contains_double c (x # y # r)"
    proof (cases xs)
      case Nil
      with e show ?thesis by simp
    next
      case (Cons a as)
      with e have "y # r = as @ [c, c] @ ys" by simp
      then have "\<exists>xs ys. y # r = xs @ [c, c] @ ys" by blast
      with "1.IH" have "contains_double c (y # r)" by simp
      then show ?thesis by simp
    qed
  qed
qed (auto simp: Cons_eq_append_conv)

lemma contains_double_appendI:
  assumes "contains_double c s"
  shows "contains_double c (xs @ s @ ys)"
proof -
  from assms obtain as bs where "s = as @ [c, c] @ bs" by (auto simp: contains_double_iff)
  then have "xs @ s @ ys = (xs @ as) @ [c, c] @ (bs @ ys)" by simp
  then show ?thesis unfolding contains_double_iff by blast
qed

lemma contains_double_rev: "contains_double c (rev s) \<longleftrightarrow> contains_double c s"
proof -
  have "contains_double c (rev s)" if "contains_double c s" for s
  proof -
    from that obtain as bs where "s = as @ [c, c] @ bs" by (auto simp: contains_double_iff)
    then have "rev s = rev bs @ [c, c] @ rev as" by simp
    then show ?thesis unfolding contains_double_iff by blast
  qed
  from this [of s] this [of "rev s"] show ?thesis by auto
qed

lemma contains_double_dropWhile:
  "contains_double c (dropWhile P s) \<Longrightarrow> contains_double c s"
  using contains_double_appendI [of c "dropWhile P s" "takeWhile P s" "[]"] by simp

lemma contains_double_strip:
  "contains_double c (strip_chars P s) \<Longrightarrow> contains_double c s"
  unfolding strip_chars_def
  by (auto simp: contains_double_rev dest!: contains_double_dropWhile)

lemma contains_double_take:
  "contains_double c (take n s) \<Longrightarrow> contains_double c s"
  using contains_double_appendI [of c "take n s" "[]" "drop n s"] by simp

lemma collapse_no_double: "\<not> contains_double c (collapse c s)"
proof (induction c s rule: collapse.induct)
  case (1 c safe)
  then show ?case by (subst collapse.simps) simp
qed

lemma collapse_id: "\<not> contains_double c s \<Longrightarrow> collapse c s = s"
  by (subst collapse.simps) simp

lemma replace_double_hd:
  "replace_double c (y # r) \<noteq> [] \<and> hd (replace_double c (y # r)) = y"
  by (cases r) auto

lemma replace_double_other:
  "a \<noteq> c \<Longrightarrow> \<not> contains_double a s \<Longrightarrow> \<not> contains_double a (replace_double c s)"
proof (induction c s rule: replace_double.induct)
  case (1 c x y r)
  show ?case
  proof (cases "x = c \<and> y = c")
    case True
    from "1.prems" have "\<not> contains_double a r" by (simp add: contains_double_Cons)
    with "1.IH"(1) [OF True] "1.prems" have "\<not> contains_double a (replace_double c r)"
      by simp
    with True "1.prems" show ?thesis by (simp add: contains_double_Cons)
  next
    case False
    from "1.prems" have "\<not> contains_double a (y # r)" by (simp add: contains_double_Cons)
    with "1.IH"(2) [OF False] "1.prems"
    have "\<not> contains_double a (replace_double c (y # r))" by simp
    moreover from "1.prems" have "\<not> (x = a \<and> y = a)" by auto
    moreover from False
    have "replace_double c (x # y # r) = x # replace_double c (y # r)" by auto
    ultimately show ?thesis using replace_double_hd [of c y r]
      by (simp add: contains_double_Cons del: replace_double.simps)
  qed
qed simp_all

lemma collapse_other:
  "a \<noteq> c \<Longrightarrow> \<not> contains_double a s \<Longrightarrow> \<not> contains_double a (collapse c s)"
proof (induction c s rule: collapse.induct)
  case (1 c safe)
  show ?case
  proof (cases "contains_double c safe")
    case True
    with 1 replace_double_other [of a c safe] show ?thesis by (subst collapse.simps) simp
  next
    case False
    with 1 show ?thesis by (subst collapse.simps) simp
  qed
qed

lemma strip_chars_id:
  assumes "s \<noteq> []" "\<not> P (hd s)" "\<not> P (last s)"
  shows "strip_chars P s = s"
proof -
  from assms have "dropWhile P s = s" by (cases s) auto
  moreover from assms have "dropWhile P (rev s) = rev s"
    by (cases "rev s") (auto simp: hd_rev [symmetric])
  ultimately show ?thesis by (simp add: strip_chars_def)
qed

lemma strip_chars_length: "length (strip_chars P s) \<le> length s"
proof -
  have "length (dropWhile P (rev (dropWhile P s))) \<le> length (rev (dropWhile P s))"
    by (rule length_dropWhile_le)
  also have "\<dots> \<le> length s" by (simp add: length_dropWhile_le)
  finally show ?thesis by (simp add: strip_chars_def)
qed

lemma dropWhile_shorter: "s \<noteq> [] \<Longrightarrow> P (hd s) \<Longrightarrow> length (dropWhile P s) < length s"
  by (cases s) (auto simp: less_Suc_eq_le length_dropWhile_le)

lemma strip_chars_shorter:
  assumes "s \<noteq> []" "P (hd s) \<or> P (last s)"
  shows "length (strip_chars P s) < length s"
proof (cases "P (hd s)")
  case True
  with assms have "length (dropWhile P s) < length s" by (simp add: dropWhile_shorter)
  moreover have "length (dropWhile P (rev (dropWhile P s))) \<le> length (rev (dropWhile P s))"
    by (rule length_dropWhile_le)
  ultimately show ?thesis by (simp add: strip_chars_def)
next
  case False
  with assms have l: "P (last s)" and d: "dropWhile P s = s" by (cases s; auto)+
  from assms l have "length (dropWhile P (rev s)) < length (rev s)"
    by (intro dropWhile_shorter) (auto simp: hd_rev)
  with d show ?thesis by (simp add: strip_chars_def)
qed

lemma sanitize_cases:
  assumes "sanitize_filename x m = Inr y"
  obtains "x = []" "y = unnamed"
  | t where "x \<noteq> []"
      "shorten m (strip_chars trim_chars (strip_chars py_isspace
         (collapse 0x5F (collapse 0x20 (re_sub_invalid x))))) = Inr t"
      "y = (if t = [] then unnamed else t)"
  using assms by (auto simp: sanitize_filename_def Let_def split: sum.splits if_splits)

lemma unnamed_props:
  "unnamed \<noteq> []" "\<not> contains_double 0x20 unnamed" "\<not> contains_double 0x5F unnamed"
  "\<not> list_ex is_surrogate unnamed" "sum_list (map utf8_width unnamed) = 7" "clean_ends unnamed"
  by (simp_all add: unnamed_def str_def is_surrogate_def utf8_width_def clean_ends_def
      edge_char_def py_isspace_def trim_chars_def)

lemma sanitize_set:
  assumes "sanitize_filename x m = Inr y"
  shows "set y \<subseteq> set unnamed \<union> set (re_sub_invalid x)"
  using assms
proof (cases rule: sanitize_cases)
  case (2 t)
  define s where "s = strip_chars trim_chars (strip_chars py_isspace
      (collapse 0x5F (collapse 0x20 (re_sub_invalid x))))"
  from 2 shorten_result [of m s t] have "set t \<subseteq> set s"
    by (auto simp: s_def [symmetric] dest: in_set_takeD)
  also have "set s \<subseteq> set (re_sub_invalid x)"
    unfolding s_def using set_strip_chars set_collapse by (meson subset_trans)
  finally show ?thesis using 2 by auto
qed simp

lemma sanitize_output:
  assumes "sanitize_filename x m = Inr y"
  shows "y \<noteq> []" and "\<forall>c\<in>set y. \<not> invalid_chars c"
    and "\<not> contains_double 0x20 y" and "\<not> contains_double 0x5F y"
    and "\<not> list_ex is_surrogate y"
    and "7 \<le> m \<Longrightarrow> sum_list (map utf8_width y) \<le> m"
proof -
  show "\<forall>c\<in>set y. \<not> invalid_chars c"
    using sanitize_set [OF assms] re_sub_invalid_clean unnamed_clean by blast
  define s where "s = strip_chars trim_chars (strip_chars py_isspace
         (collapse 0x5F (collapse 0x20 (re_sub_invalid x))))"
  have s1: "\<not> contains_double 0x20 s"
    unfolding s_def using collapse_no_double [of "0x20" "re_sub_invalid x"]
      collapse_other [of "0x20" "0x5F" "collapse 0x20 (re_sub_invalid x)"]
    by (auto dest!: contains_double_strip)
  have s2: "\<not> contains_double 0x5F s"
    unfolding s_def using collapse_no_double [of "0x5F" "collapse 0x20 (re_sub_invalid x)"]
    by (auto dest!: contains_double_strip)
  from assms show "y \<noteq> []" by (cases rule: sanitize_cases) (auto simp: unnamed_props)
  from assms show "\<not> contains_double 0x20 y"
  proof (cases rule: sanitize_cases)
    case (2 t)
    with shorten_result [of m s t] s1 show ?thesis
      by (auto simp: s_def [symmetric] unnamed_props dest: contains_double_take)
  qed (simp add: unnamed_props)
  from assms show "\<not> contains_double 0x5F y"
  proof (cases rule: sanitize_cases)
    case (2 t)
    with shorten_result [of m s t] s2 show ?thesis
      by (auto simp: s_def [symmetric] unnamed_props dest: contains_double_take)
  qed (simp add: unnamed_props)
  from assms show "\<not> list_ex is_surrogate y"
  proof (cases rule: sanitize_cases)
    case (2 t)
    with shorten_result [of m s t] show ?thesis
      by (auto simp: s_def [symmetric] unnamed_props)
  qed (simp add: unnamed_props)
  from assms show "sum_list (map utf8_width y) \<le> m" if "7 \<le> m"
  proof (cases rule: sanitize_cases)
    case (2 t)
    with shorten_result [of m s t] that show ?thesis
      by (auto simp: s_def [symmetric] unnamed_props)
  qed (simp add: unnamed_props that)
qed

lemma sanitize_total:
  assumes "\<not> list_ex is_surrogate x"
  shows "\<exists>y. sanitize_filename x m = Inr y"
proof -
  define s where "s = strip_chars trim_chars (strip_chars py_isspace
         (collapse 0x5F (collapse 0x20 (re_sub_invalid x))))"
  have "set s \<subseteq> set (re_sub_invalid x)"
    unfolding s_def using set_strip_chars set_collapse by (meson subset_trans)
  moreover have "\<not> list_ex is_surrogate (re_sub_invalid x)"
    using assms by (auto simp: list_ex_iff re_sub_invalid_def is_surrogate_def)
  ultimately have "\<not> list_ex is_surrogate s" by (auto simp: list_ex_iff)
  from shorten_total [OF this, of m] obtain t where "shorten m s = Inr t" by blast
  then show ?thesis by (simp add: sanitize_filename_def s_def [symmetric])
qed

lemma sanitize_fixed:
  assumes "y \<noteq> []" "\<forall>c\<in>set y. \<not> invalid_chars c"
    "\<not> contains_double 0x20 y" "\<not> contains_double 0x5F y"
    "\<not> list_ex is_surrogate y" "sum_list (map utf8_width y) \<le> m" "clean_ends y"
  shows "sanitize_filename y m = Inr y"
proof -
  from assms(1,7) have e: "\<not> py_isspace (hd y)" "\<not> py_isspace (last y)"
    "\<not> trim_chars (hd y)" "\<not> trim_chars (last y)"
    by (cases y; auto simp: clean_ends_def edge_char_def)+
  have "re_sub_invalid y = y" using assms(2) by (rule re_sub_invalid_id)
  moreover have "collapse 0x20 y = y" "collapse 0x5F y = y"
    using assms(3,4) by (simp_all add: collapse_id)
  moreover have "strip_chars py_isspace y = y" "strip_chars trim_chars y = y"
    using assms(1) e by (simp_all add: strip_chars_id)
  moreover have "shorten m y = Inr y" using assms(5,6) by (rule shorten_fits)
  ultimately show ?thesis using assms(1) by (simp add: sanitize_filename_def)
qed

lemma sanitize_changes:
  assumes "y \<noteq> []" "\<forall>c\<in>set y. \<not> invalid_chars c"
    "\<not> contains_double 0x20 y" "\<not> contains_double 0x5F y" "\<not> clean_ends y"
  shows "sanitize_filename y m \<noteq> Inr y"
proof
  assume r: "sanitize_filename y m = Inr y"
  define s where "s = strip_chars trim_chars (strip_chars py_isspace y)"
  have c: "collapse 0x5F (collapse 0x20 (re_sub_invalid y)) = y"
    using assms(2,3,4) by (simp add: re_sub_invalid_id collapse_id)
  have "length s < length y"
  proof (cases "py_isspace (hd y) \<or> py_isspace (last y)")
    case True
    with assms(1) have "length (strip_chars py_isspace y) < length y"
      by (rule strip_chars_shorter)
    with strip_chars_length [of trim_chars "strip_chars py_isspace y"] show ?thesis
      by (simp add: s_def)
  next
    case False
    with assms(1) have "strip_chars py_isspace y = y" by (simp add: strip_chars_id)
    moreover from False assms(1,5) have "trim_chars (hd y) \<or> trim_chars (last y)"
      by (cases y) (auto simp: clean_ends_def edge_char_def)
    ultimately show ?thesis using assms(1) by (simp add: s_def strip_chars_shorter)
  qed
  from r show False
  proof (cases rule: sanitize_cases)
    case 1
    with assms(1) show ?thesis by simp
  next
    case (2 t)
    from 2(2) have t: "shorten m s = Inr t" by (simp add: c s_def)
    from shorten_result [OF t] have "length t \<le> length s" by auto
    with \<open>length s < length y\<close> have "t \<noteq> y" by auto
    with 2(3) assms(5) show ?thesis by (auto simp: unnamed_props split: if_splits)
  qed
qed

lemmas sanitize_eval =
  sanitize_filename_def re_sub_invalid_def invalid_chars_def collapse_id strip_chars_def
  py_isspace_def trim_chars_def shorten_fits is_surrogate_def utf8_width_def str_def unnamed_def

text \<open>
  C8. Whatever the title and the byte budget, a string returned by \<open>sanitize_filename\<close>
  contains none of the characters \<open>\ / : * ? " < > |\<close> and no control character
  \<open>0x00\<close> to \<open>0x1F\<close>. The function returns for every title without a lone surrogate (the
  only titles on which \<open>encode('utf-8')\<close> raises).
\<close>

theorem sanitize_filename_no_forbidden:
  "(\<not> list_ex is_surrogate x \<longrightarrow> (\<exists>y. sanitize_filename x m = Inr y)) \<and>
   (\<forall>y c. sanitize_filename x m = Inr y \<and> c \<in> set y \<longrightarrow>
      c \<notin> {0x5C, 0x2F, 0x3A, 0x2A, 0x3F, 0x22, 0x3C, 0x3E, 0x7C} \<and> 0x1F < c)"
proof (intro conjI impI allI)
  assume "\<not> list_ex is_surrogate x"
  then show "\<exists>y. sanitize_filename x m = Inr y" by (rule sanitize_total)
next
  fix y c assume "sanitize_filename x m = Inr y \<and> c \<in> set y"
  with sanitize_output(2) [of x m y] have "\<not> invalid_chars c" by blast
  then show "c \<notin> {0x5C, 0x2F, 0x3A, 0x2A, 0x3F, 0x22, 0x3C, 0x3E, 0x7C}" "0x1F < c"
    by (auto simp: invalid_chars_def)
qed

theorem sanitize_filename_no_forbidden_witness:
  "\<not> list_ex is_surrogate (str ''a/b: c?'') \<and>
   sanitize_filename (str ''a/b: c?'') 60 = Inr (str ''a_b_ c'') \<and>
   list_all (\<lambda>c. c \<notin> {0x5C, 0x2F, 0x3A, 0x2A, 0x3F, 0x22, 0x3C, 0x3E, 0x7C} \<and> 0x1F < c)
     (str ''a_b_ c'')"
proof -
  have e: "sanitize_filename (str ''a/b: c?'') 60 = Inr (str ''a_b_ c'')"
    by (simp add: sanitize_eval)
  have n: "\<not> list_ex is_surrogate (str ''a/b: c?'')"
    by (simp add: str_def is_surrogate_def)
  from sanitize_filename_no_forbidden [of "str ''a/b: c?''" 60]
  have "\<forall>y c. sanitize_filename (str ''a/b: c?'') 60 = Inr y \<and> c \<in> set y \<longrightarrow>
      c \<notin> {0x5C, 0x2F, 0x3A, 0x2A, 0x3F, 0x22, 0x3C, 0x3E, 0x7C} \<and> 0x1F < c"
    by (rule conjunct2)
  with e have "\<forall>c\<in>set (str ''a_b_ c'').
      c \<notin> {0x5C, 0x2F, 0x3A, 0x2A, 0x3F, 0x22, 0x3C, 0x3E, 0x7C} \<and> 0x1F < c"
    by blast
  with e n show ?thesis by (simp add: list_all_iff)
qed

text \<open>
  C7, as stated: \<open>sanitize(sanitize(x)) == sanitize(x)\<close> for every \<open>x\<close>. It fails at
  \<open>x = "- a"\<close>: the whitespace strip comes before the strip of \<open>._-\<close>, so the first pass
  returns \<open>" a"\<close> with its leading space, and the second pass returns \<open>"a"\<close>.
\<close>

theorem sanitize_filename_not_idempotent:
  "sanitize_filename (str ''- a'') 60 = Inr (str '' a'') \<and>
   sanitize_filename (str '' a'') 60 = Inr (str ''a'') \<and>
   str ''a'' \<noteq> str '' a''"
  by (simp add: sanitize_eval)

text \<open>
  C7, amended. With the default budget of 60 bytes, a returned name \<open>y = sanitize(x)\<close> is
  a fixed point, \<open>sanitize(y) == y\<close>, exactly when \<open>y\<close> neither begins nor ends with a
  whitespace character or one of \<open>. _ -\<close>.
\<close>

theorem sanitize_filename_idempotent_iff_clean_ends:
  assumes "sanitize_filename x 60 = Inr y"
  shows "sanitize_filename y 60 = Inr y \<longleftrightarrow> clean_ends y"
  using sanitize_output [OF assms] sanitize_fixed [of y 60] sanitize_changes [of y 60]
  by auto

theorem sanitize_filename_idempotent_iff_clean_ends_witness:
  "sanitize_filename (str '' a:b. '') 60 = Inr (str ''a_b'') \<and> clean_ends (str ''a_b'') \<and>
   sanitize_filename (str ''a_b'') 60 = Inr (str ''a_b'')"
proof -
  have e: "sanitize_filename (str '' a:b. '') 60 = Inr (str ''a_b'')"
    by (simp add: sanitize_eval)
  have c: "clean_ends (str ''a_b'')"
    by (simp add: clean_ends_def edge_char_def py_isspace_def trim_chars_def str_def)
  from sanitize_filename_idempotent_iff_clean_ends [OF e] e c show ?thesis by simp
qed

text \<open>
  C9, as stated: the older \<open>sanitize_filename\<close> of \<open>rename_from_id3.py\<close> reduces the
  title \<open>cafe_d_ete\<close> to \<open>Caf_ d__t_\<close>. It does not: \<open>str.isalnum\<close> is true of the
  accented letters, so only the apostrophe is replaced.
\<close>

theorem legacy_sanitize_cafe_not_underscores:
  "legacy_sanitize_filename latin1_only cafe_d_ete 60 \<noteq> Inr (str ''Caf_ d__t_'')"
  by (simp add: legacy_sanitize_filename_def legacy_keep_def py_isalnum_def latin1_isalnum_def
      latin1_isalpha_def cafe_d_ete_def sanitize_eval)

text \<open>
  C9, amended. \<open>sanitize_filename\<close> of \<open>merlin_renamer.py\<close> returns the title
  \<open>cafe_d_ete\<close> unchanged, apostrophe and accented letters included; the older
  \<open>sanitize_filename\<close> of \<open>rename_from_id3.py\<close> keeps the accented letters and replaces
  the apostrophe by an underscore (\<open>cafe_d_ete_legacy\<close>), whatever the Unicode table
  above \<open>0xFF\<close>; so the two functions are not equal.
\<close>

theorem sanitize_cafe_canonical_and_legacy:
  "sanitize_filename cafe_d_ete 60 = Inr cafe_d_ete \<and>
   legacy_sanitize_filename db cafe_d_ete 60 = Inr cafe_d_ete_legacy \<and>
   cafe_d_ete_legacy \<noteq> cafe_d_ete \<and>
   legacy_sanitize_filename db \<noteq> sanitize_filename"
proof -
  have a: "sanitize_filename cafe_d_ete 60 = Inr cafe_d_ete"
    by (simp add: cafe_d_ete_def sanitize_eval)
  have b: "legacy_sanitize_filename db cafe_d_ete 60 = Inr cafe_d_ete_legacy"
    by (simp add: legacy_sanitize_filename_def legacy_keep_def py_isalnum_def latin1_isalnum_def
        latin1_isalpha_def cafe_d_ete_def cafe_d_ete_legacy_def sanitize_eval)
  have c: "cafe_d_ete_legacy \<noteq> cafe_d_ete"
    by (simp add: cafe_d_ete_def cafe_d_ete_legacy_def str_def)
  from a b c have "legacy_sanitize_filename db cafe_d_ete 60 \<noteq> sanitize_filename cafe_d_ete 60"
    by simp
  then have "legacy_sanitize_filename db \<noteq> sanitize_filename" by metis
  with a b c show ?thesis by simp
qed

theorem sanitize_cafe_canonical_and_legacy_witness:
  "legacy_sanitize_filename latin1_only cafe_d_ete 60 = Inr cafe_d_ete_legacy \<and>
   sanitize_filename cafe_d_ete 60 \<noteq> Inr cafe_d_ete_legacy"
  using sanitize_cafe_canonical_and_legacy [of latin1_only] by auto

section \<open>Properties of the identifier scan\<close>

lemma UUID_PATTERN_length: "length UUID_PATTERN = 36"
  by (simp add: UUID_PATTERN_def)

lemma UUID_PATTERN_nonempty: "UUID_PATTERN \<noteq> []"
  by (simp add: UUID_PATTERN_def)

lemma UUID_MARKER_length: "length UUID_MARKER = 5"
  by (simp add: UUID_MARKER_def)

lemma match_atoms_nonempty: "p \<noteq> [] \<Longrightarrow> \<not> match_atoms p []"
  by (cases p) auto

lemma finditer_nonempty_iff:
  assumes "p \<noteq> []"
  shows "finditer p pos s \<noteq> [] \<longleftrightarrow> (\<exists>k. match_atoms p (drop k s))"
proof (induction s arbitrary: pos)
  case Nil
  with assms show ?case by (simp add: match_atoms_nonempty)
next
  case (Cons c s)
  show ?case
  proof (cases "match_atoms p (c # s)")
    case True
    then have "match_atoms p (drop 0 (c # s))" by simp
    with True show ?thesis by (metis finditer.simps(2) list.discI)
  next
    case False
    have "(\<exists>k. match_atoms p (drop k (c # s))) \<longleftrightarrow> (\<exists>k. match_atoms p (drop k s))"
    proof
      assume "\<exists>k. match_atoms p (drop k (c # s))"
      then obtain k where k: "match_atoms p (drop k (c # s))" ..
      with False have "k \<noteq> 0" by (cases k) auto
      with k have "match_atoms p (drop (k - 1) s)" by (cases k) auto
      then show "\<exists>k. match_atoms p (drop k s)" ..
    next
      assume "\<exists>k. match_atoms p (drop k s)"
      then obtain k where "match_atoms p (drop k s)" ..
      then have "match_atoms p (drop (Suc k) (c # s))" by simp
      then show "\<exists>k. match_atoms p (drop k (c # s))" ..
    qed
    with False Cons.IH [of "pos + 1"] show ?thesis by simp
  qed
qed

lemma finditer_member:
  assumes "p \<noteq> []" "(k, g) \<in> set (finditer p pos s)"
  shows "pos \<le> k \<and> match_atoms p (drop (k - pos) s) \<and> g = take (length p) (drop (k - pos) s)"
  using assms
proof (induction p pos s rule: finditer.induct)
  case (1 p pos)
  then show ?case by simp
next
  case (2 p pos c s)
  from "2.prems"(1) have L: "1 \<le> length p" by (cases p) auto
  show ?case
  proof (cases "match_atoms p (c # s)")
    case True
    with "2.prems"(2) consider "k = pos" "g = take (length p) (c # s)"
      | "(k, g) \<in> set (finditer p (pos + length p) (drop (length p - 1) s))"
      by auto
    then show ?thesis
    proof cases
      case 1
      with True show ?thesis by simp
    next
      case 2
      from "2.IH"(1) [OF True "2.prems"(1) 2]
      have a: "pos + length p \<le> k"
        and b: "match_atoms p (drop (k - (pos + length p)) (drop (length p - 1) s))"
        and c: "g = take (length p) (drop (k - (pos + length p)) (drop (length p - 1) s))"
        by auto
      from a L have d: "k - pos = Suc (k - (pos + length p) + (length p - 1))"
        by linarith
      have "drop (k - (pos + length p)) (drop (length p - 1) s) = drop (k - pos) (c # s)"
        unfolding d by simp
      with a b c show ?thesis by simp
    qed
  next
    case False
    with "2.prems"(2) have m: "(k, g) \<in> set (finditer p (pos + 1) s)" by simp
    from "2.IH"(2) [OF False "2.prems"(1) m]
    have a: "pos + 1 \<le> k" and b: "match_atoms p (drop (k - (pos + 1)) s)"
      and c: "g = take (length p) (drop (k - (pos + 1)) s)" by auto
    from a have "k - pos = Suc (k - (pos + 1))" by simp
    then have "drop (k - (pos + 1)) s = drop (k - pos) (c # s)" by simp
    with a b c show ?thesis by simp
  qed
qed

lemma finditer_sorted:
  assumes "p \<noteq> []"
  shows "sorted_wrt (<) (map fst (finditer p pos s))"
  using assms
proof (induction p pos s rule: finditer.induct)
  case (1 p pos)
  then show ?case by simp
next
  case (2 p pos c s)
  from "2.prems" have L: "1 \<le> length p" by (cases p) auto
  show ?case
  proof (cases "match_atoms p (c # s)")
    case True
    have "pos < k" if "(k, g) \<in> set (finditer p (pos + length p) (drop (length p - 1) s))"
      for k g using finditer_member [OF "2.prems" that] L by simp
    with True "2.IH"(1) "2.prems" show ?thesis by auto
  next
    case False
    with "2.IH"(2) "2.prems" show ?thesis by simp
  qed
qed

lemma re_search_iff: "p \<noteq> [] \<Longrightarrow> re_search p s \<longleftrightarrow> (\<exists>k. match_atoms p (drop k s))"
proof (induction s)
  case Nil
  then show ?case by simp
next
  case (Cons c s)
  have "(\<exists>k. match_atoms p (drop k (c # s))) \<longleftrightarrow>
          match_atoms p (c # s) \<or> (\<exists>k. match_atoms p (drop k s))"
  proof
    assume "\<exists>k. match_atoms p (drop k (c # s))"
    then obtain k where k: "match_atoms p (drop k (c # s))" ..
    then show "match_atoms p (c # s) \<or> (\<exists>k. match_atoms p (drop k s))"
      by (cases k) auto
  next
    assume "match_atoms p (c # s) \<or> (\<exists>k. match_atoms p (drop k s))"
    then show "\<exists>k. match_atoms p (drop k (c # s))"
    proof
      assume "match_atoms p (c # s)"
      then have "match_atoms p (drop 0 (c # s))" by simp
      then show ?thesis ..
    next
      assume "\<exists>k. match_atoms p (drop k s)"
      then obtain k where "match_atoms p (drop (Suc k) (c # s))" by auto
      then show ?thesis ..
    qed
  qed
  with Cons show ?case by simp
qed

lemma marker_before_iff:
  "marker_before entry ms \<longleftrightarrow>
     (\<exists>m\<in>set ms. take (length UUID_MARKER) (drop m entry) = UUID_MARKER)"
  by (induction ms) auto

lemma find_uuids_member:
  assumes "u \<in> set (find_uuids_in_entry entry)"
  shows "match_atoms UUID_PATTERN (drop (offset u) (map unat entry))"
    and "uuid u = take 36 (drop (offset u) (map unat entry))"
    and "has_marker u = marker_before entry [offset u - 5 ..< offset u]"
proof -
  from assms obtain k g where m: "(k, g) \<in> set (finditer UUID_PATTERN 0 (map unat entry))"
    and u: "u = \<lparr>uuid = g, offset = k, has_marker = marker_before entry [k - 5 ..< k]\<rparr>"
    by (auto simp: find_uuids_in_entry_def)
  from finditer_member [OF UUID_PATTERN_nonempty m] u
  show "match_atoms UUID_PATTERN (drop (offset u) (map unat entry))"
    and "uuid u = take 36 (drop (offset u) (map unat entry))"
    and "has_marker u = marker_before entry [offset u - 5 ..< offset u]"
    by (simp_all add: UUID_PATTERN_length)
qed

lemma find_uuids_offsets:
  "map offset (find_uuids_in_entry entry) = map fst (finditer UUID_PATTERN 0 (map unat entry))"
  by (auto simp: find_uuids_in_entry_def)

lemma find_uuids_sorted: "sorted_wrt (<) (map offset (find_uuids_in_entry entry))"
  unfolding find_uuids_offsets by (rule finditer_sorted [OF UUID_PATTERN_nonempty])

lemma find_uuids_nonempty_iff:
  "find_uuids_in_entry entry \<noteq> [] \<longleftrightarrow>
     (\<exists>k. match_atoms UUID_PATTERN (drop k (map unat entry)))"
  using finditer_nonempty_iff [OF UUID_PATTERN_nonempty, of 0 "map unat entry"]
  by (simp add: find_uuids_in_entry_def)

lemma sorted_head_least:
  fixes f :: "'a \<Rightarrow> nat"
  assumes "sorted_wrt (<) (map f xs)" "xs = c # r" "u \<in> set xs"
  shows "f c \<le> f u"
  using assms by (auto simp: less_imp_le)

lemma sorted_filter_offsets:
  "sorted_wrt (<) (map offset us) \<Longrightarrow> sorted_wrt (<) (map offset (filter P us))"
  by (induction us) auto

section \<open>Properties of the record loop\<close>

lemma read_entry_length:
  assumes "i < length file div ENTRY_SIZE"
  shows "length (read_entry file i) = ENTRY_SIZE"
proof -
  from assms have "Suc i \<le> length file div 256" by (simp add: ENTRY_SIZE_def)
  then have "Suc i * 256 \<le> length file" by (simp add: less_eq_div_iff_mult_less_eq)
  then show ?thesis by (simp add: read_entry_def ENTRY_SIZE_def)
qed

lemma read_loop_eq:
  assumes "\<forall>i\<in>set is. length (read_entry file i) = ENTRY_SIZE"
  shows "read_loop db file is acc =
         acc @ List.map_filter (\<lambda>i. entry_item db i (read_entry file i)) is"
  using assms
  by (induction "is" arbitrary: acc) (auto simp: Let_def List.map_filter_simps split: option.splits)

lemma read_merlin_playlist_eq:
  "read_merlin_playlist db file =
     List.map_filter (\<lambda>i. entry_item db i (read_entry file i)) [0 ..< length file div ENTRY_SIZE]"
  by (simp add: read_merlin_playlist_def Let_def read_loop_eq read_entry_length)

lemma entry_item_index: "entry_item db i entry = Some it \<Longrightarrow> index it = i"
  by (auto simp: entry_item_def Let_def split: if_splits)

lemma entry_item_Some_iff:
  "(\<exists>it. entry_item db i entry = Some it) \<longleftrightarrow>
     (\<exists>k. match_atoms UUID_PATTERN (drop k (map unat entry)))"
proof -
  have "(\<exists>it. entry_item db i entry = Some it) \<longleftrightarrow> find_uuids_in_entry entry \<noteq> []"
    by (cases "find_uuids_in_entry entry") (auto simp: entry_item_def Let_def)
  then show ?thesis by (simp add: find_uuids_nonempty_iff)
qed

lemma concat_read_entries:
  "n * ENTRY_SIZE \<le> length file \<Longrightarrow>
     concat (map (read_entry file) [0 ..< n]) = take (n * ENTRY_SIZE) file"
proof (induction n)
  case 0
  then show ?case by simp
next
  case (Suc n)
  then have "concat (map (read_entry file) [0 ..< n]) = take (n * ENTRY_SIZE) file" by simp
  moreover have "take (n * ENTRY_SIZE + ENTRY_SIZE) file =
      take (n * ENTRY_SIZE) file @ take ENTRY_SIZE (drop (n * ENTRY_SIZE) file)"
    by (rule take_add)
  ultimately show ?case by (simp add: read_entry_def [abs_def] add.commute)
qed

lemma read_entry_take:
  assumes "i < n"
  shows "read_entry (take (n * ENTRY_SIZE) file) i = read_entry file i"
proof -
  from assms have "Suc i \<le> n" by simp
  then have "Suc i * ENTRY_SIZE \<le> n * ENTRY_SIZE" by (rule mult_le_mono1)
  then have "ENTRY_SIZE \<le> n * ENTRY_SIZE - i * ENTRY_SIZE" by simp
  then show ?thesis by (simp add: read_entry_def drop_take min_absorb1)
qed

lemma map_index_map_filter:
  "map index (List.map_filter (\<lambda>i. entry_item db i (f i)) xs) =
     filter (\<lambda>i. \<exists>k. match_atoms UUID_PATTERN (drop k (map unat (f i)))) xs"
proof (induction xs)
  case Nil
  then show ?case by (simp add: List.map_filter_simps)
next
  case (Cons x xs)
  show ?case
  proof (cases "entry_item db x (f x)")
    case None
    with entry_item_Some_iff [of db x "f x"]
    have "\<not> (\<exists>k. match_atoms UUID_PATTERN (drop k (map unat (f x))))" by simp
    with None Cons show ?thesis by (simp add: List.map_filter_simps)
  next
    case (Some it)
    with entry_item_Some_iff [of db x "f x"]
    have "\<exists>k. match_atoms UUID_PATTERN (drop k (map unat (f x)))" by auto
    with Some Cons entry_item_index [OF Some] show ?thesis
      by (simp add: List.map_filter_simps)
  qed
qed

lemma length_map_filter_le: "length (List.map_filter f xs) \<le> length xs"
  by (simp add: List.map_filter_def)

lemma read_merlin_playlist_take:
  "read_merlin_playlist db (take (length file div ENTRY_SIZE * ENTRY_SIZE) file) =
   read_merlin_playlist db file"
proof -
  let ?n = "length file div ENTRY_SIZE"
  have l: "length (take (?n * ENTRY_SIZE) file) div ENTRY_SIZE = ?n"
    by (simp add: ENTRY_SIZE_def min_absorb2)
  have "List.map_filter (\<lambda>i. entry_item db i (read_entry (take (?n * ENTRY_SIZE) file) i)) [0 ..< ?n]
      = List.map_filter (\<lambda>i. entry_item db i (read_entry file i)) [0 ..< ?n]"
    unfolding List.map_filter_def
    by (intro arg_cong2 [where f=map] filter_cong map_cong refl) (simp_all add: read_entry_take)
  then show ?thesis by (simp add: read_merlin_playlist_eq l)
qed

section \<open>Properties of the title text\<close>

lemma unat_byte_less: "unat (b :: byte) < 256"
proof -
  have "unat b < 2 ^ LENGTH(8)" by (rule unsigned_less)
  then show ?thesis by simp
qed

lemma decode_latin1_eq: "decode_latin1 bs = Inr (map unat bs)"
  unfolding decode_latin1_def
  by (induction bs) (simp_all add: latin1_table_def unat_byte_less)

lemma run_sequences_decoded:
  "run_sequences db start run = keep_text db start (decoded_text run)"
  by (simp add: run_sequences_def decoded_text_def decoded_def decode_latin1_eq split: sum.splits)

lemma text_sequences_runs:
  "text_sequences db i bs =
     concat (map (\<lambda>(start, run). run_sequences db start run) (printable_runs i bs))"
  by (induction db i bs rule: text_sequences.induct) auto

text \<open>
  A run of \<open>printable_runs\<close> is a non-empty stretch of bytes \<open>\<ge> 32\<close> at its offset, and
  the byte after it, if any, is below 32.
\<close>

lemma printable_runs_member:
  assumes "(start, run) \<in> set (printable_runs i bs)"
  shows "i \<le> start \<and> run \<noteq> [] \<and> (\<forall>b\<in>set run. printable b) \<and>
         take (length run) (drop (start - i) bs) = run \<and>
         (start - i + length run < length bs \<longrightarrow> \<not> printable (bs ! (start - i + length run)))"
  using assms
proof (induction i bs rule: printable_runs.induct)
  case (1 i)
  then show ?case by simp
next
  case (2 i b bs)
  let ?t = "takeWhile printable bs"
  let ?d = "dropWhile printable bs"
  show ?case
  proof (cases "printable b")
    case True
    with "2.prems" consider "start = i" "run = b # ?t"
      | "(start, run) \<in> set (printable_runs (i + 1 + length ?t) ?d)"
      by auto
    then show ?thesis
    proof cases
      case 1
      have p: "\<forall>x\<in>set ?t. printable x" by (auto dest: set_takeWhileD)
      have t: "take (length ?t) bs = ?t"
        by (metis append_eq_conv_conj takeWhile_dropWhile_id)
      have "\<not> printable (bs ! length ?t)" if "length ?t < length bs"
        using that by (rule nth_length_takeWhile)
      with 1 True p t show ?thesis by simp
    next
      case 2
      from "2.IH"(1) [OF True 2]
      have a: "i + 1 + length ?t \<le> start" and b: "run \<noteq> []" "\<forall>b\<in>set run. printable b"
        and c: "take (length run) (drop (start - (i + 1 + length ?t)) ?d) = run"
        and d: "start - (i + 1 + length ?t) + length run < length ?d \<longrightarrow>
                \<not> printable (?d ! (start - (i + 1 + length ?t) + length run))"
        by auto
      have dd: "?d = drop (length ?t) bs"
        by (metis append_eq_conv_conj takeWhile_dropWhile_id)
      from a have e: "start - i = Suc (start - (i + 1 + length ?t) + length ?t)" by linarith
      have "drop (start - (i + 1 + length ?t)) ?d = drop (start - i) (b # bs)"
        unfolding e dd by (simp add: add.commute)
      with c have c': "take (length run) (drop (start - i) (b # bs)) = run" by simp
      have d': "\<not> printable ((b # bs) ! (start - i + length run))"
        if "start - i + length run < length (b # bs)"
      proof -
        from that e have "start - (i + 1 + length ?t) + length run < length ?d"
          by (simp add: dd)
        with d have "\<not> printable (?d ! (start - (i + 1 + length ?t) + length run))" by simp
        moreover have "?d ! (start - (i + 1 + length ?t) + length run) =
            (b # bs) ! (start - i + length run)"
          unfolding e dd using that e by (simp add: add.commute add.left_commute)
        ultimately show ?thesis by simp
      qed
      from a b c' d' show ?thesis by auto
    qed
  next
    case False
    with "2.prems" have m: "(start, run) \<in> set (printable_runs (i + 1) bs)" by simp
    from "2.IH"(2) [OF False m]
    have a: "i + 1 \<le> start" and b: "run \<noteq> []" "\<forall>b\<in>set run. printable b"
      and c: "take (length run) (drop (start - (i + 1)) bs) = run"
      and d: "start - (i + 1) + length run < length bs \<longrightarrow>
              \<not> printable (bs ! (start - (i + 1) + length run))"
      by auto
    from a have e: "start - i = Suc (start - (i + 1))" by simp
    from a b c d show ?thesis unfolding e by auto
  qed
qed

lemma text_sequences_candidates:
  "text_sequences db 0 entry = surviving_candidates db entry"
  by (simp add: text_sequences_runs surviving_candidates_def run_sequences_decoded)

lemma filter_first:
  assumes "filter P xs = m # r"
  shows "\<exists>n<length xs. xs ! n = m \<and> P m \<and> (\<forall>j<n. \<not> P (xs ! j))"
proof -
  from assms obtain us vs where x: "xs = us @ m # vs" and u: "\<forall>u\<in>set us. \<not> P u" and m: "P m"
    by (auto simp: filter_eq_Cons_iff)
  have "\<forall>j<length us. \<not> P (xs ! j)" using u x by (simp add: nth_append)
  with x m show ?thesis by (intro exI [of _ "length us"]) auto
qed

lemma sort_reverse_Nil: "sort_reverse k xs = [] \<longleftrightarrow> xs = []"
  by (auto simp: sort_reverse_def dest: arg_cong [where f=length])

lemma sort_reverse_hd:
  fixes k :: "'a \<Rightarrow> nat"
  assumes "xs \<noteq> []"
  shows "\<exists>n<length xs. hd (sort_reverse k xs) = xs ! n \<and>
           (\<forall>j<length xs. k (xs ! j) \<le> k (xs ! n)) \<and> (\<forall>j<n. k (xs ! j) < k (xs ! n))"
proof -
  define ys where "ys = sort_key k (rev xs)"
  define m where "m = last ys"
  have ne: "ys \<noteq> []" using assms by (auto simp: ys_def dest: arg_cong [where f=length])
  have srt: "sorted (map k ys)" by (simp add: ys_def)
  have st: "set ys = set xs" by (simp add: ys_def)
  have mx: "k y \<le> k m" if "y \<in> set ys" for y
  proof -
    from that obtain i where i: "i < length ys" "ys ! i = y" by (auto simp: in_set_conv_nth)
    with srt ne have "map k ys ! i \<le> map k ys ! (length ys - 1)"
      by (intro sorted_nth_mono) auto
    with i ne show ?thesis by (simp add: m_def last_conv_nth)
  qed
  have hd: "hd (sort_reverse k xs) = m"
    by (simp add: sort_reverse_def ys_def [symmetric] hd_rev m_def)
  have "filter (\<lambda>y. k y = k m) (rev ys) = filter (\<lambda>y. k y = k m) xs"
    unfolding ys_def by (simp add: rev_filter [symmetric] sort_key_stable)
  moreover have "rev ys = m # tl (rev ys)"
    using ne by (metis hd_rev list.collapse m_def rev_is_Nil_conv)
  then have "filter (\<lambda>y. k y = k m) (rev ys) = m # filter (\<lambda>y. k y = k m) (tl (rev ys))"
    by (metis (mono_tags, lifting) filter.simps(2))
  ultimately obtain r where "filter (\<lambda>y. k y = k m) xs = m # r" by metis
  from filter_first [OF this] obtain n where n: "n < length xs" "xs ! n = m"
    "\<forall>j<n. k (xs ! j) \<noteq> k m" by blast
  have le: "k (xs ! j) \<le> k m" if "j < length xs" for j
    using that mx st by (metis nth_mem)
  have "k (xs ! j) < k m" if "j < n" for j
    using that n le [of j] by (simp add: le_neq_implies_less)
  with n le hd show ?thesis by (intro exI [of _ n]) auto
qed

lemma title_selection:
  "(surviving_candidates db entry = [] \<longrightarrow> extract_title_from_entry db entry us = []) \<and>
   (surviving_candidates db entry \<noteq> [] \<longrightarrow>
      (\<exists>n<length (surviving_candidates db entry).
         extract_title_from_entry db entry us = seq_text (surviving_candidates db entry ! n) \<and>
         (\<forall>j<length (surviving_candidates db entry).
            length (seq_text (surviving_candidates db entry ! j)) \<le>
            length (seq_text (surviving_candidates db entry ! n))) \<and>
         (\<forall>j<n. length (seq_text (surviving_candidates db entry ! j)) <
            length (seq_text (surviving_candidates db entry ! n)))))"
proof (intro conjI impI)
  assume "surviving_candidates db entry = []"
  then show "extract_title_from_entry db entry us = []"
    by (simp add: extract_title_from_entry_def text_sequences_candidates sort_reverse_def)
next
  let ?c = "surviving_candidates db entry"
  let ?k = "\<lambda>x. length (seq_text x)"
  assume ne: "?c \<noteq> []"
  then have "sort_reverse ?k ?c \<noteq> []" by (simp add: sort_reverse_Nil)
  then have "extract_title_from_entry db entry us = seq_text (hd (sort_reverse ?k ?c))"
    by (cases "sort_reverse ?k ?c")
       (simp_all add: extract_title_from_entry_def text_sequences_candidates)
  with sort_reverse_hd [OF ne, of ?k] show "\<exists>n<length ?c.
         extract_title_from_entry db entry us = seq_text (?c ! n) \<and>
         (\<forall>j<length ?c. length (seq_text (?c ! j)) \<le> length (seq_text (?c ! n))) \<and>
         (\<forall>j<n. length (seq_text (?c ! j)) < length (seq_text (?c ! n)))"
    by auto
qed

lemma keep_text_props:
  assumes "c \<in> set (keep_text db start t)"
  shows "seq_offset c = start" "seq_text c = t" "8 \<le> length t" "\<not> is_uuid_like t"
    "3 \<le> alpha_count db t"
  using assms by (auto simp: keep_text_def split: if_splits)

lemma candidates_props:
  assumes "c \<in> set (surviving_candidates db entry)"
  shows "\<exists>run. (seq_offset c, run) \<in> set (printable_runs 0 entry) \<and> seq_text c = decoded_text run"
    and "8 \<le> length (seq_text c)" and "\<not> is_uuid_like (seq_text c)"
    and "3 \<le> alpha_count db (seq_text c)"
proof -
  from assms obtain start run where r: "(start, run) \<in> set (printable_runs 0 entry)"
    and c: "c \<in> set (keep_text db start (decoded_text run))"
    by (auto simp: surviving_candidates_def)
  from keep_text_props [OF c] r
  show "\<exists>run. (seq_offset c, run) \<in> set (printable_runs 0 entry) \<and> seq_text c = decoded_text run"
    and "8 \<le> length (seq_text c)" and "\<not> is_uuid_like (seq_text c)"
    and "3 \<le> alpha_count db (seq_text c)"
    by auto
qed

lemma keep_text_offsets: "c \<in> set (keep_text db start t) \<Longrightarrow> seq_offset c = start"
  by (auto simp: keep_text_def split: if_splits)

lemma keep_text_short: "keep_text db start t = [] \<or> (\<exists>c. keep_text db start t = [c])"
  by (simp add: keep_text_def)

lemma run_offsets_sorted:
  "sorted_wrt (<) (map seq_offset
     (concat (map (\<lambda>(start, run). keep_text db start (f run)) (printable_runs i bs))))"
proof (induction i bs rule: printable_runs.induct)
  case (1 i)
  then show ?case by simp
next
  case (2 i b bs)
  let ?t = "takeWhile printable bs"
  let ?rest = "concat (map (\<lambda>(start, run). keep_text db start (f run))
      (printable_runs (i + 1 + length ?t) (dropWhile printable bs)))"
  show ?case
  proof (cases "printable b")
    case True
    have later: "i < seq_offset c" if "c \<in> set ?rest" for c
    proof -
      from that obtain start run
        where r: "(start, run) \<in> set (printable_runs (i + 1 + length ?t) (dropWhile printable bs))"
          and c: "c \<in> set (keep_text db start (f run))"
        by auto
      from printable_runs_member [OF r] keep_text_offsets [OF c] show ?thesis by simp
    qed
    from True "2.IH"(1) have "sorted_wrt (<) (map seq_offset ?rest)" by simp
    moreover have "\<forall>x\<in>set (keep_text db i (f (b # ?t))). \<forall>y\<in>set ?rest.
        seq_offset x < seq_offset y"
      using later by (auto dest: keep_text_offsets)
    moreover have "sorted_wrt (<) (map seq_offset (keep_text db i (f (b # ?t))))"
      using keep_text_short [of db i "f (b # ?t)"] by auto
    ultimately show ?thesis using True by (simp add: sorted_wrt_append)
  next
    case False
    with "2.IH"(2) show ?thesis by simp
  qed
qed

lemma candidates_sorted:
  "sorted_wrt (<) (map seq_offset (surviving_candidates db entry))"
  unfolding surviving_candidates_def by (rule run_offsets_sorted)

lemma printable_runs_starts_sorted: "sorted_wrt (<) (map fst (printable_runs i bs))"
proof (induction i bs rule: printable_runs.induct)
  case (1 i)
  then show ?case by simp
next
  case (2 i b bs)
  show ?case
  proof (cases "printable b")
    case True
    have "i < start"
      if "(start, run) \<in> set (printable_runs (i + 1 + length (takeWhile printable bs))
            (dropWhile printable bs))" for start run
      using printable_runs_member [OF that] by simp
    with True "2.IH"(1) show ?thesis by auto
  next
    case False
    with "2.IH"(2) show ?thesis by simp
  qed
qed

lemma printable_runs_starts_distinct: "distinct (map fst (printable_runs i bs))"
  using printable_runs_starts_sorted [of i bs] strict_sorted_iff by blast

lemma filter_offset_none:
  assumes "start \<notin> fst ` set rs"
  shows "filter (\<lambda>c. seq_offset c = start)
           (concat (map (\<lambda>(st, r). keep_text db st (f r)) rs)) = []"
  using assms by (induction rs) (auto simp: filter_empty_conv dest: keep_text_offsets)

lemma filter_offset_run:
  assumes "distinct (map fst rs)" "(start, r) \<in> set rs"
  shows "filter (\<lambda>c. seq_offset c = start)
           (concat (map (\<lambda>(st, r). keep_text db st (f r)) rs)) = keep_text db start (f r)"
  using assms
proof (induction rs)
  case Nil
  then show ?case by simp
next
  case (Cons x rs)
  obtain st r' where x: "x = (st, r')" by (cases x)
  show ?case
  proof (cases "st = start")
    case True
    from Cons.prems x True have n: "start \<notin> fst ` set rs" by auto
    with Cons.prems(2) x True have "r' = r" by (auto simp: image_iff)
    moreover have "filter (\<lambda>c. seq_offset c = start) (keep_text db start (f r)) =
        keep_text db start (f r)"
      by (auto simp: filter_id_conv dest: keep_text_offsets)
    ultimately show ?thesis using x True filter_offset_none [OF n, of db f] by simp
  next
    case False
    with Cons.prems x have "distinct (map fst rs)" "(start, r) \<in> set rs" by auto
    from Cons.IH [OF this]
    have "filter (\<lambda>c. seq_offset c = start)
           (concat (map (\<lambda>(st, r). keep_text db st (f r)) rs)) = keep_text db start (f r)" .
    moreover have "filter (\<lambda>c. seq_offset c = start) (keep_text db st (f r')) = []"
      using False by (auto simp: filter_empty_conv dest: keep_text_offsets)
    ultimately show ?thesis using x by simp
  qed
qed

lemma run_candidates:
  assumes "(start, r) \<in> set (printable_runs 0 entry)"
  shows "filter (\<lambda>c. seq_offset c = start) (text_sequences db 0 entry) =
         keep_text db start (strip_chars py_isspace (decoded r))"
  using filter_offset_run [OF printable_runs_starts_distinct assms, of db
      "\<lambda>r. strip_chars py_isspace (decoded r)"]
  by (simp add: text_sequences_candidates surviving_candidates_def decoded_text_def)

lemma decode_utf8_cases:
  "decode_utf8 r = Inr (decoded r) \<or>
   (decode_utf8 r = Inl UnicodeDecodeError \<and> decode_latin1 r = Inr (decoded r))"
  by (simp add: decode_utf8_def decoded_def decode_latin1_eq split: option.splits)

lemma decode_bytewise_length:
  "decode_bytewise table bs = Inr t \<Longrightarrow> length t = length bs"
  by (induction bs arbitrary: t) (auto split: option.splits sum.splits)

lemma is_uuid_like_iff:
  "is_uuid_like t \<longleftrightarrow>
      (\<exists>k. match_atoms (replicate 8 Hex @ [Lit 0x2D] @ replicate 4 Hex) (drop k t)) \<or>
      (10 < length t \<and> 7 * length t < 10 * length (filter (\<lambda>c. is_hex c \<or> c = 0x2D) t))"
proof -
  have ne: "UUID_LIKE_PATTERN \<noteq> []" by (simp add: UUID_LIKE_PATTERN_def)
  have "is_uuid_like t \<longleftrightarrow>
      (\<exists>k. match_atoms UUID_LIKE_PATTERN (drop k t)) \<or>
      (10 < length t \<and> 7 * length t < 10 * length (filter (\<lambda>c. is_hex c \<or> c = 0x2D) t))"
  proof (cases "t = []")
    case True
    with ne show ?thesis by (simp add: is_uuid_like_def match_atoms_nonempty)
  next
    case False
    then show ?thesis by (simp add: is_uuid_like_def Let_def re_search_iff [OF ne])
  qed
  then show ?thesis unfolding UUID_LIKE_PATTERN_def hyphen_def .
qed

lemma is_uuid_like_empty: "\<not> is_uuid_like []"
  by (simp add: is_uuid_like_def)

lemma title_not_uuid_like: "\<not> is_uuid_like (extract_title_from_entry db entry us)"
proof (cases "surviving_candidates db entry = []")
  case True
  with title_selection [of db entry us] show ?thesis by (simp add: is_uuid_like_empty)
next
  case False
  with title_selection [of db entry us] obtain n where "n < length (surviving_candidates db entry)"
    "extract_title_from_entry db entry us = seq_text (surviving_candidates db entry ! n)"
    by blast
  with candidates_props(3) [of "surviving_candidates db entry ! n" db entry] show ?thesis
    by simp
qed

section \<open>Properties of the tag lookup\<close>

lemma first_tag_length: "first_tag tags ks = Some t \<Longrightarrow> 3 \<le> length t"
  by (induction tags ks rule: first_tag.induct) (auto split: option.splits list.splits if_splits)

lemma get_id3_title_length:
  assumes "get_id3_title hm ft = Some t"
  shows "3 \<le> length t"
proof -
  from assms obtain tags where "first_tag tags [''TIT2'', ''TIT1'', ''TALB''] = Some t"
    by (auto simp: get_id3_title_def simp del: first_tag.simps split: if_splits option.splits)
  then show ?thesis by (rule first_tag_length)
qed

lemma item_title_alt:
  "item_title hm id3_only mp3 ft it =
     choose_title (embedded_lookup hm mp3 ft) (if \<not> id3_only then Some (pl_title it) else None)
       (item_uuid it)"
  by (simp add: item_title_def Let_def)

lemma item_title_cases:
  "(case embedded_lookup HAS_MUTAGEN mp3_exists file_tags of
      Some t \<Rightarrow>
        3 \<le> length t \<and> item_title HAS_MUTAGEN id3_only mp3_exists file_tags it = (t, ID3)
    | None \<Rightarrow>
        if \<not> id3_only \<and> pl_title it \<noteq> [] \<and> \<not> is_uuid_like (pl_title it)
        then item_title HAS_MUTAGEN id3_only mp3_exists file_tags it = (pl_title it, PLAYLIST)
        else item_title HAS_MUTAGEN id3_only mp3_exists file_tags it = (item_uuid it, UUID))"
proof (cases "embedded_lookup HAS_MUTAGEN mp3_exists file_tags")
  case None
  then show ?thesis by (auto simp: item_title_alt choose_title_def)
next
  case (Some t)
  then have "get_id3_title HAS_MUTAGEN file_tags = Some t"
    by (auto simp: embedded_lookup_def split: if_splits)
  from get_id3_title_length [OF this] have "3 \<le> length t" .
  with Some show ?thesis by (auto simp: item_title_alt choose_title_def)
qed

section \<open>Evaluation of the concrete records\<close>

lemma UUID_PATTERN_atoms:
  "UUID_PATTERN = [Hex, Hex, Hex, Hex, Hex, Hex, Hex, Hex, Lit 0x2D, Hex, Hex, Hex, Hex, Lit 0x2D,
     Hex, Hex, Hex, Hex, Lit 0x2D, Hex, Hex, Hex, Hex, Lit 0x2D,
     Hex, Hex, Hex, Hex, Hex, Hex, Hex, Hex, Hex, Hex, Hex, Hex]"
  by (simp add: UUID_PATTERN_def hyphen_def eval_nat_numeral)

lemma UUID_LIKE_PATTERN_atoms:
  "UUID_LIKE_PATTERN = [Hex, Hex, Hex, Hex, Hex, Hex, Hex, Hex, Lit 0x2D, Hex, Hex, Hex, Hex]"
  by (simp add: UUID_LIKE_PATTERN_def hyphen_def eval_nat_numeral)

lemma finditer_no_hex:
  "\<forall>c\<in>set s. \<not> is_hex c \<Longrightarrow> finditer (Hex # p) pos s = []"
  by (induction s arbitrary: pos) auto

lemma text_sequences_unprintable:
  "\<forall>b\<in>set bs. \<not> printable b \<Longrightarrow> text_sequences db i bs = []"
  by (induction bs arbitrary: i) auto

lemma printable_runs_unprintable:
  "\<forall>b\<in>set bs. \<not> printable b \<Longrightarrow> printable_runs i bs = []"
  by (induction bs arbitrary: i) auto

lemmas scan_eval =
  find_uuids_in_entry_def UUID_MARKER_def bytes_def str_def uuid1_def uuid2_def
  UUID_PATTERN_atoms is_hex_def finditer_no_hex printable_def text_sequences_unprintable
  printable_runs_unprintable run_sequences_def decode_utf8_def decode_latin1_eq
  continuation_def strip_chars_def py_isspace_def keep_text_def is_uuid_like_def
  UUID_LIKE_PATTERN_atoms alpha_count_def py_isalpha_def latin1_isalpha_def decoded_text_def
  decoded_def

lemma record_lengths:
  "length record0 = 256" "length playlist_512 = 512" "length record_two_uuids = 256"
  "length record_tie = 256" "length record_padded = 256" "length record_hex_prefix = 256"
  by (simp_all add: record0_def playlist_512_def record_two_uuids_def record_tie_def
      record_padded_def record_hex_prefix_def UUID_MARKER_def bytes_def uuid1_def uuid2_def)

lemma find_uuids_record0:
  "find_uuids_in_entry record0 = [\<lparr>uuid = str uuid1, offset = 5, has_marker = True\<rparr>]"
  by (simp add: record0_def scan_eval)

lemma find_uuids_zero: "find_uuids_in_entry (replicate n 0) = []"
  by (simp add: scan_eval)

lemma runs_record0:
  "printable_runs 0 record0 =
     [(0, UUID_MARKER @ bytes uuid1), (42, bytes ''My Favorite Song'')]"
  by (simp add: record0_def scan_eval)

lemma candidates_record0:
  "surviving_candidates latin1_only record0 =
     [\<lparr>seq_offset = 42, seq_text = str ''My Favorite Song''\<rparr>]"
  by (simp add: surviving_candidates_def runs_record0) (simp add: scan_eval)

lemma title_record0:
  "extract_title_from_entry latin1_only record0 us = str ''My Favorite Song''"
  by (simp add: extract_title_from_entry_def text_sequences_candidates candidates_record0
      sort_reverse_def)

lemma find_uuids_two:
  "find_uuids_in_entry record_two_uuids =
     [\<lparr>uuid = str uuid2, offset = 0, has_marker = False\<rparr>,
      \<lparr>uuid = str uuid1, offset = 42, has_marker = True\<rparr>]"
  by (simp add: record_two_uuids_def scan_eval)

lemma candidates_tie:
  "surviving_candidates latin1_only record_tie =
     [\<lparr>seq_offset = 42, seq_text = str ''Title One''\<rparr>,
      \<lparr>seq_offset = 52, seq_text = str ''Title Two''\<rparr>]"
  by (simp add: surviving_candidates_def record_tie_def scan_eval)

lemma single_record:
  assumes "length r = 256"
  shows "read_merlin_playlist db r = (case entry_item db 0 r of Some it \<Rightarrow> [it] | None \<Rightarrow> [])"
  using assms
  by (simp add: read_merlin_playlist_eq ENTRY_SIZE_def read_entry_def List.map_filter_simps
      split: option.splits)

lemma match_atoms_zero: "\<not> match_atoms (Hex # p) (replicate n 0)"
  by (cases n) (simp_all add: is_hex_def)

lemma read_entry_playlist_512:
  "read_entry playlist_512 0 = record0" "read_entry playlist_512 (Suc 0) = replicate 256 0"
  using record_lengths(1) by (simp_all add: read_entry_def ENTRY_SIZE_def playlist_512_def)

lemma entry_item_record0:
  "entry_item latin1_only i record0 =
     Some \<lparr>index = i, item_uuid = str uuid1, pl_title = str ''My Favorite Song'',
           all_uuids = [str uuid1]\<rparr>"
  by (simp add: entry_item_def find_uuids_record0 title_record0)

lemma entry_item_zero: "entry_item db i (replicate n 0) = None"
  by (simp add: entry_item_def find_uuids_zero)

lemma entry_item_padded:
  "entry_item latin1_only 0 record_padded =
     Some \<lparr>index = 0, item_uuid = str uuid1, pl_title = str ''Short Title One'',
           all_uuids = [str uuid1]\<rparr>"
  by (simp add: entry_item_def extract_title_from_entry_def sort_reverse_def record_padded_def
      scan_eval)

lemma entry_item_hex_prefix:
  "entry_item latin1_only 0 record_hex_prefix =
     Some \<lparr>index = 0, item_uuid = str uuid1, pl_title = str ''deadbeef-song title'',
           all_uuids = [str uuid1]\<rparr>"
  by (simp add: entry_item_def extract_title_from_entry_def sort_reverse_def record_hex_prefix_def
      scan_eval match_atoms_zero)

lemma record_lengths2: "length record_latin1 = 256" "length record_spaced = 256"
  by (simp_all add: record_latin1_def record_spaced_def latin1_run_def UUID_MARKER_def bytes_def
      uuid1_def)

lemma runs_record_latin1:
  "printable_runs 0 record_latin1 = [(0, UUID_MARKER @ bytes uuid1), (42, latin1_run)]"
  by (simp add: record_latin1_def latin1_run_def scan_eval)

lemma decode_latin1_run:
  "decode_utf8 latin1_run = Inl UnicodeDecodeError"
  "decode_latin1 latin1_run = Inr (str ''Caf'' @ [0xE9] @ str '' du Monde'')"
  by (simp_all add: latin1_run_def scan_eval)

lemma keep_latin1_text:
  "keep_text latin1_only 42 (strip_chars py_isspace (str ''Caf'' @ [0xE9] @ str '' du Monde'')) =
     [\<lparr>seq_offset = 42, seq_text = str ''Caf'' @ [0xE9] @ str '' du Monde''\<rparr>]"
  by (simp add: scan_eval)

lemma entry_item_spaced:
  "entry_item latin1_only 0 record_spaced =
     Some \<lparr>index = 0, item_uuid = str uuid1, pl_title = [], all_uuids = [str uuid1]\<rparr>"
  by (simp add: entry_item_def extract_title_from_entry_def sort_reverse_def record_spaced_def
      scan_eval)

lemma read_merlin_playlist_member:
  assumes "it \<in> set (read_merlin_playlist db file)"
  shows "index it < length file div 256"
    and "entry_item db (index it) (read_entry file (index it)) = Some it"
proof -
  from assms obtain i where i: "i < length file div ENTRY_SIZE"
    and e: "entry_item db i (read_entry file i) = Some it"
    by (auto simp: read_merlin_playlist_eq List.map_filter_def)
  from entry_item_index [OF e] i e
  show "index it < length file div 256"
    and "entry_item db (index it) (read_entry file (index it)) = Some it"
    by (simp_all add: ENTRY_SIZE_def)
qed

lemma entry_item_uuid_choice:
  assumes "entry_item db i entry = Some it"
  shows "find_uuids_in_entry entry \<noteq> [] \<and>
         sorted_wrt (<) (map offset (find_uuids_in_entry entry)) \<and>
         (\<exists>c\<in>set (find_uuids_in_entry entry). item_uuid it = uuid c \<and>
            (if list_ex has_marker (find_uuids_in_entry entry)
             then has_marker c \<and>
                  (\<forall>u\<in>set (find_uuids_in_entry entry). has_marker u \<longrightarrow> offset c \<le> offset u)
             else \<forall>u\<in>set (find_uuids_in_entry entry). offset c \<le> offset u))"
proof -
  let ?us = "find_uuids_in_entry entry"
  from assms have ne: "?us \<noteq> []"
    by (auto simp: entry_item_def Let_def split: if_splits)
  from assms have id: "item_uuid it =
      (case filter has_marker ?us of u # _ \<Rightarrow> uuid u | [] \<Rightarrow> uuid (hd ?us))"
    by (auto simp: entry_item_def Let_def split: if_splits)
  have srt: "sorted_wrt (<) (map offset ?us)" by (rule find_uuids_sorted)
  have "\<exists>c\<in>set ?us. item_uuid it = uuid c \<and>
            (if list_ex has_marker ?us
             then has_marker c \<and> (\<forall>u\<in>set ?us. has_marker u \<longrightarrow> offset c \<le> offset u)
             else \<forall>u\<in>set ?us. offset c \<le> offset u)"
  proof (cases "filter has_marker ?us")
    case Nil
    then have no: "\<not> list_ex has_marker ?us" by (auto simp: list_ex_iff filter_empty_conv)
    from ne obtain c r where cr: "?us = c # r" by (cases ?us) auto
    with id Nil have "item_uuid it = uuid c" by simp
    moreover have "\<forall>u\<in>set ?us. offset c \<le> offset u"
      using sorted_head_least [OF srt cr] by blast
    moreover have "c \<in> set ?us" using cr by simp
    ultimately show ?thesis using no by auto
  next
    case (Cons c r)
    then have "c \<in> set (filter has_marker ?us)" by simp
    then have c: "c \<in> set ?us" "has_marker c" by auto
    then have yes: "list_ex has_marker ?us" by (auto simp: list_ex_iff)
    from id Cons have "item_uuid it = uuid c" by simp
    moreover have "offset c \<le> offset u" if "u \<in> set ?us" "has_marker u" for u
    proof -
      from that have "u \<in> set (filter has_marker ?us)" by simp
      from sorted_head_least [OF sorted_filter_offsets [OF srt] Cons this] show ?thesis .
    qed
    ultimately show ?thesis using c yes by auto
  qed
  with ne srt show ?thesis by simp
qed

section \<open>The claims about the record scanner\<close>

text \<open>
  C2. Whatever the length of the file, \<open>read_merlin_playlist\<close> reads the
  \<open>length file div 256\<close> records \<open>read_entry file i\<close>, each of exactly 256 bytes, which
  together are the file without its last \<open>length file mod 256\<close> bytes; that tail changes
  nothing and is no error, and the \<open>break\<close> of the loop is never taken. Record \<open>i\<close> gives
  an item exactly when the identifier pattern matches somewhere in it, so the indices of
  the items are those records in order, and there are at most as many items as records.
\<close>

theorem read_merlin_playlist_records:
  "read_merlin_playlist db file =
     List.map_filter (\<lambda>i. entry_item db i (read_entry file i)) [0 ..< length file div 256] \<and>
   (\<forall>i < length file div 256. length (read_entry file i) = 256) \<and>
   concat (map (read_entry file) [0 ..< length file div 256]) =
     take (length file div 256 * 256) file \<and>
   read_merlin_playlist db (take (length file div 256 * 256) file) = read_merlin_playlist db file \<and>
   map index (read_merlin_playlist db file) =
     filter (\<lambda>i. \<exists>k. match_atoms UUID_PATTERN (drop k (map unat (read_entry file i))))
       [0 ..< length file div 256] \<and>
   length (read_merlin_playlist db file) \<le> length file div 256"
proof -
  have e: "ENTRY_SIZE = 256" by (simp add: ENTRY_SIZE_def)
  have a: "read_merlin_playlist db file =
     List.map_filter (\<lambda>i. entry_item db i (read_entry file i)) [0 ..< length file div 256]"
    using read_merlin_playlist_eq [of db "file"] by (simp add: e)
  have b: "\<forall>i < length file div 256. length (read_entry file i) = 256"
    using read_entry_length [of _ "file"] by (simp add: e)
  have c: "concat (map (read_entry file) [0 ..< length file div 256]) =
     take (length file div 256 * 256) file"
    using concat_read_entries [of "length file div 256" "file"] by (simp add: e)
  have d: "read_merlin_playlist db (take (length file div 256 * 256) file) =
     read_merlin_playlist db file"
    using read_merlin_playlist_take [of db "file"] by (simp add: e)
  have f: "map index (read_merlin_playlist db file) =
     filter (\<lambda>i. \<exists>k. match_atoms UUID_PATTERN (drop k (map unat (read_entry file i))))
       [0 ..< length file div 256]"
    unfolding a by (rule map_index_map_filter)
  have g: "length (read_merlin_playlist db file) \<le> length file div 256"
    unfolding a using length_map_filter_le [of _ "[0 ..< length file div 256]"] by simp
  from a b c d f g show ?thesis by blast
qed

theorem read_merlin_playlist_records_witness:
  "length playlist_512 = 2 * 256 \<and>
   read_merlin_playlist latin1_only playlist_512 =
     [\<lparr>index = 0, item_uuid = str uuid1, pl_title = str ''My Favorite Song'',
       all_uuids = [str uuid1]\<rparr>]"
proof -
  have u: "[0 ..< 2] = [0, Suc 0]" by (simp add: upt_rec)
  from read_merlin_playlist_records [of latin1_only playlist_512]
  have "read_merlin_playlist latin1_only playlist_512 =
     List.map_filter (\<lambda>i. entry_item latin1_only i (read_entry playlist_512 i)) [0 ..< 2]"
    by (simp add: record_lengths)
  then show ?thesis
    by (simp add: u List.map_filter_simps read_entry_playlist_512 entry_item_record0
        entry_item_zero record_lengths)
qed

text \<open>
  C3. For every item that \<open>read_merlin_playlist\<close> returns, the identifiers of its record
  are listed by strictly ascending offset, and the item's \<open>uuid\<close> is that of the identifier
  \<open>c\<close> chosen so: if some identifier has \<open>has_marker\<close>, \<open>c\<close> has it and no identifier with
  \<open>has_marker\<close> starts before \<open>c\<close>; otherwise no identifier at all starts before \<open>c\<close>.
\<close>

theorem canonical_uuid_marker_first:
  assumes "it \<in> set (read_merlin_playlist db file)"
  shows "find_uuids_in_entry (read_entry file (index it)) \<noteq> [] \<and>
         sorted_wrt (<) (map offset (find_uuids_in_entry (read_entry file (index it)))) \<and>
         (\<exists>c\<in>set (find_uuids_in_entry (read_entry file (index it))). item_uuid it = uuid c \<and>
            (if list_ex has_marker (find_uuids_in_entry (read_entry file (index it)))
             then has_marker c \<and>
                  (\<forall>u\<in>set (find_uuids_in_entry (read_entry file (index it))).
                     has_marker u \<longrightarrow> offset c \<le> offset u)
             else \<forall>u\<in>set (find_uuids_in_entry (read_entry file (index it))).
                    offset c \<le> offset u))"
  using entry_item_uuid_choice [OF read_merlin_playlist_member(2) [OF assms]]
  by simp

theorem canonical_uuid_marker_first_witness:
  "find_uuids_in_entry record_two_uuids =
     [\<lparr>uuid = str uuid2, offset = 0, has_marker = False\<rparr>,
      \<lparr>uuid = str uuid1, offset = 42, has_marker = True\<rparr>] \<and>
   map item_uuid (read_merlin_playlist latin1_only record_two_uuids) = [str uuid1]"
proof -
  obtain it where e: "entry_item latin1_only 0 record_two_uuids = Some it"
    by (simp add: entry_item_def find_uuids_two)
  then have r: "read_merlin_playlist latin1_only record_two_uuids = [it]"
    by (simp add: single_record record_lengths)
  then have "it \<in> set (read_merlin_playlist latin1_only record_two_uuids)" by simp
  from canonical_uuid_marker_first [OF this] entry_item_index [OF e]
  have "\<exists>c\<in>set (find_uuids_in_entry record_two_uuids). item_uuid it = uuid c \<and> has_marker c"
    using record_lengths(3)
    by (auto simp: read_entry_def ENTRY_SIZE_def find_uuids_two)
  then have "item_uuid it = str uuid1" by (auto simp: find_uuids_two)
  with r show ?thesis by (simp add: find_uuids_two)
qed

text \<open>
  C4. For every identifier that \<open>find_uuids_in_entry\<close> reports, the pattern matches at
  its offset \<open>k\<close>, and \<open>has_marker\<close> is true exactly when the five bytes
  \<open>4C 61 94 69 24\<close> stand in the record from some offset \<open>m\<close> with \<open>k - 5 \<le> m \<le> k - 1\<close>.
\<close>

theorem has_marker_iff_marker_before:
  assumes "u \<in> set (find_uuids_in_entry entry)"
  shows "match_atoms UUID_PATTERN (drop (offset u) (map unat entry)) \<and>
         (has_marker u \<longleftrightarrow>
            (\<exists>m. offset u \<le> m + 5 \<and> m < offset u \<and>
                 take 5 (drop m entry) = [0x4C, 0x61, 0x94, 0x69, 0x24]))"
proof -
  have "has_marker u \<longleftrightarrow>
          (\<exists>m\<in>set [offset u - 5 ..< offset u]. take 5 (drop m entry) = UUID_MARKER)"
    using find_uuids_member(3) [OF assms] by (simp add: marker_before_iff UUID_MARKER_length)
  also have "\<dots> \<longleftrightarrow> (\<exists>m. offset u \<le> m + 5 \<and> m < offset u \<and>
                 take 5 (drop m entry) = [0x4C, 0x61, 0x94, 0x69, 0x24])"
  proof -
    have "(offset u - 5 \<le> m \<and> m < offset u) = (offset u \<le> m + 5 \<and> m < offset u)" for m
      by auto
    then show ?thesis by (simp add: UUID_MARKER_def Bex_def)
  qed
  finally show ?thesis using find_uuids_member(1) [OF assms] by simp
qed

theorem has_marker_iff_marker_before_witness:
  "find_uuids_in_entry record_two_uuids =
     [\<lparr>uuid = str uuid2, offset = 0, has_marker = False\<rparr>,
      \<lparr>uuid = str uuid1, offset = 42, has_marker = True\<rparr>] \<and>
   (\<exists>m. 42 \<le> m + 5 \<and> m < 42 \<and>
        take 5 (drop m record_two_uuids) = [0x4C, 0x61, 0x94, 0x69, 0x24]) \<and>
   (\<nexists>m. 0 \<le> m + 5 \<and> m < 0 \<and>
        take 5 (drop m record_two_uuids) = [0x4C, 0x61, 0x94, 0x69, 0x24])"
proof -
  let ?a = "\<lparr>uuid = str uuid2, offset = 0, has_marker = False\<rparr>"
  let ?b = "\<lparr>uuid = str uuid1, offset = 42, has_marker = True\<rparr>"
  have "?a \<in> set (find_uuids_in_entry record_two_uuids)"
    "?b \<in> set (find_uuids_in_entry record_two_uuids)"
    by (simp_all add: find_uuids_two)
  from has_marker_iff_marker_before [OF this(1)] has_marker_iff_marker_before [OF this(2)]
  show ?thesis by (simp add: find_uuids_two)
qed

text \<open>
  C5, as stated: the title is the longest decoded printable run of length at least 8
  with at least 3 letters that is not identifier-like. In \<open>record_padded\<close> two decoded runs
  pass these tests as they are, one of 15 characters and one of 21 (a title inside
  spaces), so the title would be the second; the source returns the first, because it
  strips whitespace from a decoded run before it measures it.
\<close>

theorem playlist_title_not_longest_decoded_run:
  "claimed_candidates latin1_only record_padded =
     [\<lparr>seq_offset = 42, seq_text = str ''Short Title One''\<rparr>,
      \<lparr>seq_offset = 58, seq_text = str ''      Tiny Song      ''\<rparr>] \<and>
   claimed_title latin1_only record_padded = str ''      Tiny Song      '' \<and>
   map pl_title (read_merlin_playlist latin1_only record_padded) = [str ''Short Title One''] \<and>
   str ''Short Title One'' \<noteq> str ''      Tiny Song      ''"
proof -
  have c: "claimed_candidates latin1_only record_padded =
     [\<lparr>seq_offset = 42, seq_text = str ''Short Title One''\<rparr>,
      \<lparr>seq_offset = 58, seq_text = str ''      Tiny Song      ''\<rparr>]"
    by (simp add: claimed_candidates_def record_padded_def scan_eval)
  have "claimed_title latin1_only record_padded = str ''      Tiny Song      ''"
    unfolding claimed_title_def c by (simp add: sort_reverse_def str_def)
  moreover have "map pl_title (read_merlin_playlist latin1_only record_padded) =
      [str ''Short Title One'']"
    by (simp add: single_record record_lengths entry_item_padded)
  moreover have "str ''Short Title One'' \<noteq> str ''      Tiny Song      ''"
    by (simp add: str_def)
  ultimately show ?thesis using c by simp
qed

text \<open>
  C5, amended. The surviving candidates of a record, listed by ascending offset, are the
  decoded printable runs with leading and trailing whitespace stripped, kept when the
  stripped text has at least 8 characters, is not \<open>is_uuid_like\<close> and has at least 3
  alphabetic characters. If none survives the title is empty; otherwise the title is a
  longest surviving candidate, and every candidate before it in the record is strictly
  shorter.
\<close>

theorem playlist_title_longest_stripped_candidate:
  "sorted_wrt (<) (map seq_offset (surviving_candidates db entry)) \<and>
   (\<forall>c\<in>set (surviving_candidates db entry).
      (\<exists>run. (seq_offset c, run) \<in> set (printable_runs 0 entry) \<and>
             seq_text c = strip_chars py_isspace (decoded run)) \<and>
      8 \<le> length (seq_text c) \<and> \<not> is_uuid_like (seq_text c) \<and>
      3 \<le> length (filter (py_isalpha db) (seq_text c))) \<and>
   (surviving_candidates db entry = [] \<longrightarrow> extract_title_from_entry db entry us = []) \<and>
   (surviving_candidates db entry \<noteq> [] \<longrightarrow>
      (\<exists>n<length (surviving_candidates db entry).
         extract_title_from_entry db entry us = seq_text (surviving_candidates db entry ! n) \<and>
         (\<forall>j<length (surviving_candidates db entry).
            length (seq_text (surviving_candidates db entry ! j)) \<le>
            length (seq_text (surviving_candidates db entry ! n))) \<and>
         (\<forall>j<n. length (seq_text (surviving_candidates db entry ! j)) <
            length (seq_text (surviving_candidates db entry ! n)))))"
proof -
  have "\<forall>c\<in>set (surviving_candidates db entry).
      (\<exists>run. (seq_offset c, run) \<in> set (printable_runs 0 entry) \<and>
             seq_text c = strip_chars py_isspace (decoded run)) \<and>
      8 \<le> length (seq_text c) \<and> \<not> is_uuid_like (seq_text c) \<and>
      3 \<le> length (filter (py_isalpha db) (seq_text c))"
    using candidates_props [of _ db entry]
    by (simp add: decoded_text_def alpha_count_def)
  with title_selection [of db entry us] candidates_sorted [of db entry] show ?thesis by blast
qed

theorem playlist_title_longest_stripped_candidate_witness:
  "surviving_candidates latin1_only record_tie =
     [\<lparr>seq_offset = 42, seq_text = str ''Title One''\<rparr>,
      \<lparr>seq_offset = 52, seq_text = str ''Title Two''\<rparr>] \<and>
   extract_title_from_entry latin1_only record_tie [] = str ''Title One''"
proof -
  let ?c = "surviving_candidates latin1_only record_tie"
  from playlist_title_longest_stripped_candidate [of latin1_only record_tie "[]"]
  obtain n where n: "n < length ?c"
    "extract_title_from_entry latin1_only record_tie [] = seq_text (?c ! n)"
    "\<forall>j<n. length (seq_text (?c ! j)) < length (seq_text (?c ! n))"
    by (auto simp: candidates_tie)
  have "n = 0"
  proof (rule ccontr)
    assume "n \<noteq> 0"
    with n(1) have "n = 1" by (simp add: candidates_tie)
    with n(3) have "length (seq_text (?c ! 0)) < length (seq_text (?c ! 1))" by simp
    then show False by (simp add: candidates_tie str_def)
  qed
  with n(2) show ?thesis by (simp add: candidates_tie)
qed

text \<open>
  C6, as stated: a run that contains eight hex digits followed by a hyphen is never the
  title. The title \<open>deadbeef-song title\<close> of \<open>record_hex_prefix\<close> is such a run: the
  pattern of \<open>is_uuid_like\<close> asks for four more hex digits after the hyphen.
\<close>

theorem hex_prefixed_title_selected:
  "claimed_identifier_like (str ''deadbeef-song title'') \<and>
   map pl_title (read_merlin_playlist latin1_only record_hex_prefix) =
     [str ''deadbeef-song title'']"
proof -
  have "claimed_identifier_like (str ''deadbeef-song title'')"
    by (simp add: claimed_identifier_like_def hyphen_def eval_nat_numeral str_def is_hex_def)
  moreover have "map pl_title (read_merlin_playlist latin1_only record_hex_prefix) =
     [str ''deadbeef-song title'']"
    by (simp add: single_record record_lengths entry_item_hex_prefix)
  ultimately show ?thesis by simp
qed

text \<open>
  C6, amended. A text is \<open>is_uuid_like\<close> exactly when it contains eight hex digits, a
  hyphen and four more hex digits in a row, or has more than 10 characters of which more
  than 70% are hex digits or hyphens. The title of a record is never such a text, and a
  run whose stripped text is such a text contributes no candidate and is not the title,
  however long it is.
\<close>

theorem uuid_like_run_never_title:
  "\<not> is_uuid_like (extract_title_from_entry db entry us) \<and>
   (\<forall>(start, run) \<in> set (printable_runs 0 entry).
      is_uuid_like (strip_chars py_isspace (decoded run)) \<longrightarrow>
        run_sequences db start run = [] \<and>
        extract_title_from_entry db entry us \<noteq> strip_chars py_isspace (decoded run)) \<and>
   (is_uuid_like t \<longleftrightarrow>
      (\<exists>k. match_atoms (replicate 8 Hex @ [Lit 0x2D] @ replicate 4 Hex) (drop k t)) \<or>
      (10 < length t \<and> 7 * length t < 10 * length (filter (\<lambda>c. is_hex c \<or> c = 0x2D) t)))"
proof (intro conjI)
  show n: "\<not> is_uuid_like (extract_title_from_entry db entry us)"
    by (rule title_not_uuid_like)
  show "\<forall>(start, run) \<in> set (printable_runs 0 entry).
      is_uuid_like (strip_chars py_isspace (decoded run)) \<longrightarrow>
        run_sequences db start run = [] \<and>
        extract_title_from_entry db entry us \<noteq> strip_chars py_isspace (decoded run)"
    using n by (auto simp: run_sequences_decoded keep_text_def decoded_text_def)
  have ne: "UUID_LIKE_PATTERN \<noteq> []" by (simp add: UUID_LIKE_PATTERN_def)
  have "is_uuid_like t \<longleftrightarrow>
      (\<exists>k. match_atoms UUID_LIKE_PATTERN (drop k t)) \<or>
      (10 < length t \<and> 7 * length t < 10 * length (filter (\<lambda>c. is_hex c \<or> c = 0x2D) t))"
  proof (cases "t = []")
    case True
    with ne show ?thesis by (simp add: is_uuid_like_def match_atoms_nonempty)
  next
    case False
    then show ?thesis by (simp add: is_uuid_like_def Let_def re_search_iff [OF ne])
  qed
  then show "is_uuid_like t \<longleftrightarrow>
      (\<exists>k. match_atoms (replicate 8 Hex @ [Lit 0x2D] @ replicate 4 Hex) (drop k t)) \<or>
      (10 < length t \<and> 7 * length t < 10 * length (filter (\<lambda>c. is_hex c \<or> c = 0x2D) t))"
    unfolding UUID_LIKE_PATTERN_def hyphen_def .
qed

theorem uuid_like_run_never_title_witness:
  "printable_runs 0 record0 = [(0, UUID_MARKER @ bytes uuid1), (42, bytes ''My Favorite Song'')] \<and>
   is_uuid_like (strip_chars py_isspace (decoded (UUID_MARKER @ bytes uuid1))) \<and>
   length (bytes ''My Favorite Song'') < length (UUID_MARKER @ bytes uuid1) \<and>
   run_sequences latin1_only 0 (UUID_MARKER @ bytes uuid1) = [] \<and>
   extract_title_from_entry latin1_only record0 [] \<noteq>
     strip_chars py_isspace (decoded (UUID_MARKER @ bytes uuid1)) \<and>
   extract_title_from_entry latin1_only record0 [] = str ''My Favorite Song''"
proof -
  have u: "is_uuid_like (strip_chars py_isspace (decoded (UUID_MARKER @ bytes uuid1)))"
    by (simp add: scan_eval)
  have l: "length (bytes ''My Favorite Song'') < length (UUID_MARKER @ bytes uuid1)"
    by (simp add: bytes_def UUID_MARKER_def uuid1_def)
  from uuid_like_run_never_title [of latin1_only record0 "[]"]
  have "\<forall>(start, run) \<in> set (printable_runs 0 record0).
      is_uuid_like (strip_chars py_isspace (decoded run)) \<longrightarrow>
        run_sequences latin1_only start run = [] \<and>
        extract_title_from_entry latin1_only record0 [] \<noteq> strip_chars py_isspace (decoded run)"
    by blast
  with u have "run_sequences latin1_only 0 (UUID_MARKER @ bytes uuid1) = [] \<and>
      extract_title_from_entry latin1_only record0 [] \<noteq>
        strip_chars py_isspace (decoded (UUID_MARKER @ bytes uuid1))"
    by (simp add: runs_record0)
  with u l show ?thesis by (simp add: runs_record0 title_record0)
qed

text \<open>
  C10, as stated: every printable run gives a decoded string that is then subject only
  to the three tests. In \<open>record_spaced\<close> the run of 7 letters inside 6 spaces decodes to a
  string of 13 characters that passes the three tests as it is, and yet gives no
  candidate: the source strips whitespace from the decoded string before the tests.
\<close>

theorem padded_run_dropped_after_strip:
  "printable_runs 0 record_spaced =
     [(0, UUID_MARKER @ bytes uuid1), (42, bytes ''   abcdefg   '')] \<and>
   decode_utf8 (bytes ''   abcdefg   '') = Inr (str ''   abcdefg   '') \<and>
   keep_text latin1_only 42 (str ''   abcdefg   '') =
     [\<lparr>seq_offset = 42, seq_text = str ''   abcdefg   ''\<rparr>] \<and>
   run_sequences latin1_only 42 (bytes ''   abcdefg   '') = [] \<and>
   map pl_title (read_merlin_playlist latin1_only record_spaced) = [[]]"
proof -
  have "printable_runs 0 record_spaced =
     [(0, UUID_MARKER @ bytes uuid1), (42, bytes ''   abcdefg   '')]"
    by (simp add: record_spaced_def scan_eval)
  moreover have "decode_utf8 (bytes ''   abcdefg   '') = Inr (str ''   abcdefg   '')"
    by (simp add: scan_eval)
  moreover have "keep_text latin1_only 42 (str ''   abcdefg   '') =
     [\<lparr>seq_offset = 42, seq_text = str ''   abcdefg   ''\<rparr>]"
    by (simp add: scan_eval)
  moreover have "run_sequences latin1_only 42 (bytes ''   abcdefg   '') = []"
    by (simp add: scan_eval)
  moreover have "map pl_title (read_merlin_playlist latin1_only record_spaced) = [[]]"
    by (simp add: single_record record_lengths2 entry_item_spaced)
  ultimately show ?thesis by simp
qed

text \<open>
  C10, amended. Decoding as Latin-1 succeeds for every byte sequence, one character per
  byte, so the \<open>except: pass\<close> branch is never taken. Every printable run of a record is
  decoded, as UTF-8 or else as Latin-1; the decoded string is stripped of leading and
  trailing whitespace; and the run has a candidate in \<open>text_sequences\<close>, the stripped
  string at the offset of the run, exactly when the stripped string has at least 8
  characters, is not \<open>is_uuid_like\<close> and has at least 3 alphabetic characters.
\<close>

theorem latin1_fallback_total:
  "(\<exists>t. decode_latin1 run = Inr t \<and> length t = length run) \<and>
   (\<forall>(start, r) \<in> set (printable_runs 0 entry).
      \<exists>t. (decode_utf8 r = Inr t \<or>
             (decode_utf8 r = Inl UnicodeDecodeError \<and> decode_latin1 r = Inr t)) \<and>
          run_sequences db start r = keep_text db start (strip_chars py_isspace t) \<and>
          filter (\<lambda>c. seq_offset c = start) (text_sequences db 0 entry) =
            (if 8 \<le> length (strip_chars py_isspace t) \<and>
                \<not> is_uuid_like (strip_chars py_isspace t) \<and>
                3 \<le> length (filter (py_isalpha db) (strip_chars py_isspace t))
             then [\<lparr>seq_offset = start, seq_text = strip_chars py_isspace t\<rparr>]
             else []))"
proof (intro conjI ballI)
  obtain t where t: "decode_latin1 run = Inr t" by (simp add: decode_latin1_eq)
  then have "length t = length run"
    unfolding decode_latin1_def by (rule decode_bytewise_length)
  with t show "\<exists>t. decode_latin1 run = Inr t \<and> length t = length run" by blast
next
  fix x assume x: "x \<in> set (printable_runs 0 entry)"
  obtain start r where sr: "x = (start, r)" by (cases x)
  let ?s = "strip_chars py_isspace (decoded r)"
  have a: "decode_utf8 r = Inr (decoded r) \<or>
      (decode_utf8 r = Inl UnicodeDecodeError \<and> decode_latin1 r = Inr (decoded r))"
    by (rule decode_utf8_cases)
  have b: "run_sequences db start r = keep_text db start ?s"
    by (simp add: run_sequences_decoded decoded_text_def)
  have "filter (\<lambda>c. seq_offset c = start) (text_sequences db 0 entry) = keep_text db start ?s"
    using x sr by (simp add: run_candidates)
  then have c: "filter (\<lambda>c. seq_offset c = start) (text_sequences db 0 entry) =
            (if 8 \<le> length ?s \<and> \<not> is_uuid_like ?s \<and> 3 \<le> length (filter (py_isalpha db) ?s)
             then [\<lparr>seq_offset = start, seq_text = ?s\<rparr>] else [])"
    by (simp add: keep_text_def alpha_count_def)
  from a b c show "case x of (start, r) \<Rightarrow>
      \<exists>t. (decode_utf8 r = Inr t \<or>
             (decode_utf8 r = Inl UnicodeDecodeError \<and> decode_latin1 r = Inr t)) \<and>
          run_sequences db start r = keep_text db start (strip_chars py_isspace t) \<and>
          filter (\<lambda>c. seq_offset c = start) (text_sequences db 0 entry) =
            (if 8 \<le> length (strip_chars py_isspace t) \<and>
                \<not> is_uuid_like (strip_chars py_isspace t) \<and>
                3 \<le> length (filter (py_isalpha db) (strip_chars py_isspace t))
             then [\<lparr>seq_offset = start, seq_text = strip_chars py_isspace t\<rparr>]
             else [])"
    unfolding sr by (intro case_prodI2 exI [of _ "decoded r"]) auto
qed

theorem latin1_fallback_total_witness:
  "printable_runs 0 record_latin1 = [(0, UUID_MARKER @ bytes uuid1), (42, latin1_run)] \<and>
   decode_utf8 latin1_run = Inl UnicodeDecodeError \<and>
   decode_latin1 latin1_run = Inr (str ''Caf'' @ [0xE9] @ str '' du Monde'') \<and>
   run_sequences latin1_only 42 latin1_run =
     [\<lparr>seq_offset = 42, seq_text = str ''Caf'' @ [0xE9] @ str '' du Monde''\<rparr>] \<and>
   filter (\<lambda>c. seq_offset c = 42) (text_sequences latin1_only 0 record_latin1) =
     [\<lparr>seq_offset = 42, seq_text = str ''Caf'' @ [0xE9] @ str '' du Monde''\<rparr>]"
proof -
  let ?T = "str ''Caf'' @ [0xE9] @ str '' du Monde''"
  have m: "(42, latin1_run) \<in> set (printable_runs 0 record_latin1)"
    by (simp add: runs_record_latin1)
  from latin1_fallback_total [of latin1_run record_latin1 latin1_only] m
  obtain t where t: "decode_utf8 latin1_run = Inr t \<or>
        (decode_utf8 latin1_run = Inl UnicodeDecodeError \<and> decode_latin1 latin1_run = Inr t)"
    and r: "run_sequences latin1_only 42 latin1_run =
        keep_text latin1_only 42 (strip_chars py_isspace t)"
    and f: "filter (\<lambda>c. seq_offset c = 42) (text_sequences latin1_only 0 record_latin1) =
            (if 8 \<le> length (strip_chars py_isspace t) \<and>
                \<not> is_uuid_like (strip_chars py_isspace t) \<and>
                3 \<le> length (filter (py_isalpha latin1_only) (strip_chars py_isspace t))
             then [\<lparr>seq_offset = 42, seq_text = strip_chars py_isspace t\<rparr>]
             else [])"
    by blast
  from t have "t = ?T" by (simp add: decode_latin1_run)
  with r f keep_latin1_text have
    "run_sequences latin1_only 42 latin1_run = [\<lparr>seq_offset = 42, seq_text = ?T\<rparr>]"
    "filter (\<lambda>c. seq_offset c = 42) (text_sequences latin1_only 0 record_latin1) =
       [\<lparr>seq_offset = 42, seq_text = ?T\<rparr>]"
    by (simp_all add: keep_text_def alpha_count_def split: if_splits)
  then show ?thesis by (simp add: runs_record_latin1 decode_latin1_run)
qed

section \<open>The claim about the title of an item\<close>

text \<open>
  C1, as stated, with identifier-like as the specification words it (eight hex digits
  then a hyphen): the item parsed from \<open>record_hex_prefix\<close> has such a playlist title and no
  tag title, so its final title would be its identifier with source \<open>UUID\<close>. The source
  gives the playlist title with source \<open>PLAYLIST\<close>, because \<open>is_uuid_like\<close> asks for four more
  hex digits after the hyphen.
\<close>

theorem hex_prefixed_title_resolves_to_playlist:
  "read_merlin_playlist latin1_only record_hex_prefix = [hex_item] \<and>
   claimed_identifier_like (pl_title hex_item) \<and>
   embedded_lookup True False None = None \<and>
   item_title True False False None hex_item = (str ''deadbeef-song title'', PLAYLIST) \<and>
   claimed_item_title None False hex_item = (str uuid1, UUID) \<and>
   (str ''deadbeef-song title'', PLAYLIST) \<noteq> (str uuid1, UUID)"
proof -
  have a: "read_merlin_playlist latin1_only record_hex_prefix = [hex_item]"
    by (simp add: single_record record_lengths entry_item_hex_prefix hex_item_def)
  have p: "pl_title hex_item = str ''deadbeef-song title''" "item_uuid hex_item = str uuid1"
    by (simp_all add: hex_item_def)
  have b: "claimed_identifier_like (str ''deadbeef-song title'')"
    by (simp add: claimed_identifier_like_def hyphen_def eval_nat_numeral str_def is_hex_def)
  have c: "embedded_lookup True False None = None" by (simp add: embedded_lookup_def)
  have n: "\<not> is_uuid_like (str ''deadbeef-song title'')"
    by (simp add: is_uuid_like_def UUID_LIKE_PATTERN_atoms is_hex_def str_def)
  have d: "item_title True False False None hex_item = (str ''deadbeef-song title'', PLAYLIST)"
    using n by (simp add: item_title_alt c choose_title_def p) (simp add: str_def)
  have e: "claimed_item_title None False hex_item = (str uuid1, UUID)"
    using b by (simp add: claimed_item_title_def p)
  from a b c d e show ?thesis by (simp add: p)
qed

text \<open>
  C1, amended. When the tag lookup gives a title, that title has at least 3 characters
  and is the final title, with source \<open>ID3\<close>. When it gives nothing, the final title is the
  playlist title with source \<open>PLAYLIST\<close> if \<open>--id3-only\<close> is off and the playlist title is
  non-empty and neither contains eight hex digits, a hyphen and four more hex digits in a
  row, nor has more than 10 characters of which more than 70% are hex digits or hyphens;
  otherwise it is the identifier of the item with source \<open>UUID\<close>.
\<close>

theorem title_resolution_priority:
  "(case embedded_lookup HAS_MUTAGEN mp3_exists file_tags of
      Some t \<Rightarrow>
        3 \<le> length t \<and> item_title HAS_MUTAGEN id3_only mp3_exists file_tags it = (t, ID3)
    | None \<Rightarrow>
        if \<not> id3_only \<and> pl_title it \<noteq> [] \<and>
           \<not> ((\<exists>k. match_atoms (replicate 8 Hex @ [Lit 0x2D] @ replicate 4 Hex)
                      (drop k (pl_title it))) \<or>
              (10 < length (pl_title it) \<and>
               7 * length (pl_title it) <
                 10 * length (filter (\<lambda>c. is_hex c \<or> c = 0x2D) (pl_title it))))
        then item_title HAS_MUTAGEN id3_only mp3_exists file_tags it = (pl_title it, PLAYLIST)
        else item_title HAS_MUTAGEN id3_only mp3_exists file_tags it = (item_uuid it, UUID))"
  using item_title_cases [where HAS_MUTAGEN = HAS_MUTAGEN and mp3_exists = mp3_exists and
      file_tags = file_tags and id3_only = id3_only and it = it]
  unfolding is_uuid_like_iff [of "pl_title it"] .

theorem title_resolution_priority_witness:
  "item_title True False True (Some [''TIT2'' \<mapsto> [str ''Real Title'']]) song_a =
     (str ''Real Title'', ID3) \<and>
   item_title True False True None song_a = (str ''Song A'', PLAYLIST) \<and>
   item_title True True True None song_a = (str uuid1, UUID) \<and>
   item_title True False False None (song_a\<lparr>pl_title := []\<rparr>) = (str uuid1, UUID) \<and>
   item_title True False False None hex_item = (str ''deadbeef-song title'', PLAYLIST)"
proof -
  have a: "embedded_lookup True True (Some [''TIT2'' \<mapsto> [str ''Real Title'']]) =
      Some (str ''Real Title'')"
    by (simp add: embedded_lookup_def get_id3_title_def str_def)
  have b: "embedded_lookup True True None = None" "embedded_lookup True False None = None"
    by (simp_all add: embedded_lookup_def get_id3_title_def)
  have c: "\<not> ((\<exists>k. match_atoms (replicate 8 Hex @ [Lit 0x2D] @ replicate 4 Hex)
                      (drop k (str ''Song A''))) \<or>
              (10 < length (str ''Song A'') \<and>
               7 * length (str ''Song A'') <
                 10 * length (filter (\<lambda>c. is_hex c \<or> c = 0x2D) (str ''Song A''))))"
    unfolding is_uuid_like_iff [symmetric]
    by (simp add: is_uuid_like_def UUID_LIKE_PATTERN_atoms is_hex_def str_def)
  have c': "\<not> ((\<exists>k. match_atoms (replicate 8 Hex @ [Lit 0x2D] @ replicate 4 Hex)
                      (drop k (str ''deadbeef-song title''))) \<or>
              (10 < length (str ''deadbeef-song title'') \<and>
               7 * length (str ''deadbeef-song title'') <
                 10 * length (filter (\<lambda>c. is_hex c \<or> c = 0x2D) (str ''deadbeef-song title''))))"
    unfolding is_uuid_like_iff [symmetric]
    by (simp add: is_uuid_like_def UUID_LIKE_PATTERN_atoms is_hex_def str_def)
  have p: "pl_title song_a = str ''Song A''" "item_uuid song_a = str uuid1"
    "pl_title (song_a\<lparr>pl_title := []\<rparr>) = []"
    "item_uuid (song_a\<lparr>pl_title := []\<rparr>) = str uuid1"
    "pl_title hex_item = str ''deadbeef-song title''" "item_uuid hex_item = str uuid1"
    by (simp_all add: song_a_def hex_item_def)
  have d: "str ''Song A'' \<noteq> []" "str ''deadbeef-song title'' \<noteq> []" by (simp_all add: str_def)
  have w1: "item_title True False True (Some [''TIT2'' \<mapsto> [str ''Real Title'']]) song_a =
     (str ''Real Title'', ID3)"
    using title_resolution_priority [where HAS_MUTAGEN = True and mp3_exists = True and
      file_tags = "Some [''TIT2'' \<mapsto> [str ''Real Title'']]" and id3_only = False and it = song_a]
    unfolding a by simp
  have w2: "item_title True False True None song_a = (str ''Song A'', PLAYLIST)"
    using title_resolution_priority [where HAS_MUTAGEN = True and mp3_exists = True and
      file_tags = None and id3_only = False and it = song_a] c d
    unfolding b p by simp
  have w3: "item_title True True True None song_a = (str uuid1, UUID)"
    using title_resolution_priority [where HAS_MUTAGEN = True and mp3_exists = True and
      file_tags = None and id3_only = True and it = song_a]
    unfolding b p by simp
  have w4: "item_title True False False None (song_a\<lparr>pl_title := []\<rparr>) = (str uuid1, UUID)"
    using title_resolution_priority [where HAS_MUTAGEN = True and mp3_exists = False and
      file_tags = None and id3_only = False and it = "song_a\<lparr>pl_title := []\<rparr>"]
    unfolding b p by simp
  have w5: "item_title True False False None hex_item = (str ''deadbeef-song title'', PLAYLIST)"
    using title_resolution_priority [where HAS_MUTAGEN = True and mp3_exists = False and
      file_tags = None and id3_only = False and it = hex_item] c' d
    unfolding b p by simp
  from w1 w2 w3 w4 w5 show ?thesis by simp
qed

end
